theory Spec2Isabelle
  imports
    Main
    "HOL-Library.Sublist"
    "HOL-Library.Multiset"
    "HOL-Library.Char_ord"
    "HOL-Library.List_Lexorder"
begin

section \<open>Paths and media kinds\<close>

text \<open>
  Paths are byte strings. \<open>lower\<close> is \<^verbatim>\<open>str.lower()\<close> on ASCII letters; every other
  byte is left as it is.
\<close>

definition lower_char :: "char \<Rightarrow> char" where
  "lower_char c =
     (case map_of (zip ''ABCDEFGHIJKLMNOPQRSTUVWXYZ'' ''abcdefghijklmnopqrstuvwxyz'') c of
        Some d \<Rightarrow> d
      | None \<Rightarrow> c)"

definition lower :: "string \<Rightarrow> string" where
  "lower s = map lower_char s"

text \<open>\<^verbatim>\<open>s.endswith(suf)\<close>: the last \<open>len(suf)\<close> characters of \<open>s\<close> are \<open>suf\<close>.\<close>

definition endswith :: "string \<Rightarrow> string \<Rightarrow> bool" where
  "endswith s suf = (length suf \<le> length s \<and> drop (length s - length suf) s = suf)"

text \<open>\<^verbatim>\<open>self.video_extensions\<close>, assigned once in \<^verbatim>\<open>__init__\<close> and never written again.\<close>

definition video_extensions :: "string list" where
  "video_extensions =
     [''.mp4'', ''.avi'', ''.mkv'', ''.mov'', ''.webm'', ''.flv'', ''.wmv'', ''.mpg'', ''.mpeg'']"

text \<open>\<^verbatim>\<open>any(filepath.lower().endswith(ext) for ext in self.video_extensions)\<close>\<close>

definition is_video_file :: "string \<Rightarrow> bool" where
  "is_video_file filepath = list_ex (\<lambda>ext. endswith (lower filepath) ext) video_extensions"

text \<open>\<^verbatim>\<open>media_type = "video" if self.is_video_file(media) else "image"\<close>\<close>

definition media_type :: "string \<Rightarrow> string" where
  "media_type media = (if is_video_file media then ''video'' else ''image'')"

section \<open>Ordering the list of files\<close>

text \<open>
  \<^verbatim>\<open>random.shuffle(x)\<close> is CPython's Fisher-Yates loop
  \<^verbatim>\<open>for i in reversed(range(1, len(x))): j = randbelow(i + 1); x[i], x[j] = x[j], x[i]\<close>.
  The random source is a parameter: \<open>rnd i\<close> is the raw draw made for position \<open>i\<close>,
  reduced below \<open>i + 1\<close> as \<^verbatim>\<open>randbelow\<close> does.
\<close>

fun shuffle_loop :: "(nat \<Rightarrow> nat) \<Rightarrow> nat \<Rightarrow> 'a list \<Rightarrow> 'a list" where
  "shuffle_loop rnd 0 x = x"
| "shuffle_loop rnd (Suc k) x =
     (let i = Suc k;
          j = rnd i mod (i + 1)
      in shuffle_loop rnd k (x[i := x ! j, j := x ! i]))"

definition random_shuffle :: "(nat \<Rightarrow> nat) \<Rightarrow> 'a list \<Rightarrow> 'a list" where
  "random_shuffle rnd x = shuffle_loop rnd (length x - 1) x"

text \<open>
  The branch of \<^verbatim>\<open>__init__\<close> under the comment "Sort or shuffle files".
  \<^verbatim>\<open>list.sort()\<close> on strings is the lexicographic order of the characters.
\<close>

definition order_files :: "bool \<Rightarrow> (nat \<Rightarrow> nat) \<Rightarrow> string list \<Rightarrow> string list" where
  "order_files shuffle rnd files = (if shuffle then random_shuffle rnd files else sort files)"

section \<open>The media engine and the main loop, as seen from the program\<close>

text \<open>
  GStreamer and GLib are outside the program. What the program does to them is recorded
  as a history of calls; the state of the outside world (which pipeline objects are
  referenced, which are out of the NULL state, which buses have a signal watch, which
  timeout sources are pending) is what that history adds up to.
\<close>

datatype gst_state = NULL | PAUSED | PLAYING

datatype pipeline_kind = AviChain | Playbin | JpegChain | DecodebinChain

datatype action =
    Attempt nat                    \<comment> \<open>\<^verbatim>\<open>load_current_media\<close> passes \<^verbatim>\<open>media_files[i]\<close> to \<^verbatim>\<open>create_pipeline\<close>\<close>
  | Construct nat pipeline_kind    \<comment> \<open>\<^verbatim>\<open>parse_launch\<close> or \<^verbatim>\<open>ElementFactory.make\<close> returned object \<open>p\<close>\<close>
  | ConstructFailed pipeline_kind  \<comment> \<open>\<^verbatim>\<open>parse_launch\<close> raised, or \<^verbatim>\<open>make\<close> returned \<^verbatim>\<open>None\<close>\<close>
  | AddSignalWatch nat             \<comment> \<open>\<^verbatim>\<open>bus.add_signal_watch()\<close> and the handler connections\<close>
  | SetState nat gst_state bool    \<comment> \<open>\<^verbatim>\<open>pipeline.set_state(st)\<close>; False is \<^verbatim>\<open>StateChangeReturn.FAILURE\<close>\<close>
  | GetState nat                   \<comment> \<open>\<^verbatim>\<open>pipeline.get_state(CLOCK_TIME_NONE)\<close>, the blocking wait\<close>
  | RemoveSignalWatch nat          \<comment> \<open>\<^verbatim>\<open>bus.remove_signal_watch()\<close>\<close>
  | Unref nat                      \<comment> \<open>\<^verbatim>\<open>self.pipeline = None\<close> drops the reference to object \<open>p\<close>\<close>
  | TimeoutAdd nat int             \<comment> \<open>\<^verbatim>\<open>GLib.timeout_add_seconds(secs, self.change_media)\<close> returned id \<open>t\<close>\<close>
  | TimeoutRejected int            \<comment> \<open>the same call raised: \<open>secs\<close> is not a \<^verbatim>\<open>guint\<close>\<close>
  | SourceRemove nat               \<comment> \<open>\<^verbatim>\<open>GLib.source_remove(t)\<close>\<close>
  | SourceExpired nat              \<comment> \<open>the callback of source \<open>t\<close> returned False: GLib drops the source\<close>
  | IdleAdd                        \<comment> \<open>\<^verbatim>\<open>GLib.idle_add(self.initialize_media)\<close>\<close>
  | IdleDone                       \<comment> \<open>\<^verbatim>\<open>initialize_media\<close> returned False\<close>
  | MainQuit                       \<comment> \<open>\<^verbatim>\<open>Gtk.main_quit()\<close>\<close>

record world =
  live :: "nat list"               \<comment> \<open>pipeline objects constructed and still referenced\<close>
  started :: "nat list"            \<comment> \<open>pipelines asked to leave the NULL state and not set back to it\<close>
  watches :: "nat list"            \<comment> \<open>buses with a signal watch (one entry per \<^verbatim>\<open>add_signal_watch\<close>)\<close>
  timers :: "(nat \<times> int) list"     \<comment> \<open>pending timeout sources calling \<^verbatim>\<open>change_media\<close>: id and seconds\<close>
  idle_init :: bool                \<comment> \<open>the idle source calling \<^verbatim>\<open>initialize_media\<close> is pending\<close>
  next_id :: nat                   \<comment> \<open>the next identifier handed out (GLib source ids are positive)\<close>
  quit :: bool                     \<comment> \<open>\<^verbatim>\<open>Gtk.main_quit()\<close> has been called\<close>

definition gst0 :: world where
  "gst0 = \<lparr>live = [], started = [], watches = [], timers = [], idle_init = False,
           next_id = 1, quit = False\<rparr>"

fun effect :: "action \<Rightarrow> world \<Rightarrow> world" where
  "effect (Attempt i) g = g"
| "effect (Construct p k) g = g\<lparr>live := live g @ [p], next_id := Suc (next_id g)\<rparr>"
| "effect (ConstructFailed k) g = g"
| "effect (AddSignalWatch b) g = g\<lparr>watches := watches g @ [b]\<rparr>"
| "effect (SetState p st ok) g =
     (if st = NULL then g\<lparr>started := removeAll p (started g)\<rparr>
      else if p \<in> set (started g) then g
      else g\<lparr>started := started g @ [p]\<rparr>)"
| "effect (GetState p) g = g"
| "effect (RemoveSignalWatch b) g = g\<lparr>watches := remove1 b (watches g)\<rparr>"
| "effect (Unref p) g = g\<lparr>live := remove1 p (live g)\<rparr>"
| "effect (TimeoutAdd t secs) g = g\<lparr>timers := timers g @ [(t, secs)], next_id := Suc (next_id g)\<rparr>"
| "effect (TimeoutRejected secs) g = g"
| "effect (SourceRemove t) g = g\<lparr>timers := filter (\<lambda>x. fst x \<noteq> t) (timers g)\<rparr>"
| "effect (SourceExpired t) g = g\<lparr>timers := filter (\<lambda>x. fst x \<noteq> t) (timers g)\<rparr>"
| "effect IdleAdd g = g\<lparr>idle_init := True\<rparr>"
| "effect IdleDone g = g\<lparr>idle_init := False\<rparr>"
| "effect MainQuit g = g\<lparr>quit := True\<rparr>"

definition replay :: "world \<Rightarrow> action list \<Rightarrow> world" where
  "replay g acts = foldl (\<lambda>w a. effect a w) g acts"

section \<open>The viewer object\<close>

text \<open>
  The attributes of \<^verbatim>\<open>MediaSlideshowViewer\<close> that the playback logic reads and writes,
  and the history of its calls to GStreamer and GLib. The window, the cursor and the
  focus handling (\<^verbatim>\<open>ensure_window_focused\<close>, \<^verbatim>\<open>clear_drawing_area\<close>, \<^verbatim>\<open>queue_draw\<close>,
  the cursor timeout) and the printing touch none of these attributes and are left out.
  An object handle is the identifier of the object; a bus has the identifier of its
  pipeline.
\<close>

record viewer =
  media_files :: "string list"
  current_index :: nat
  image_interval :: int
  pipeline :: "nat option"
  bus :: "nat option"
  is_video :: bool
  timeout_id :: "nat option"
  history :: "action list"

definition gst :: "viewer \<Rightarrow> world" where
  "gst s = replay gst0 (history s)"

definition emit :: "action \<Rightarrow> viewer \<Rightarrow> viewer" where
  "emit a s = s\<lparr>history := history s @ [a]\<rparr>"

text \<open>
  What the outside world answers when a pipeline is built and started, given everything
  that happened so far and the path: construction fails, the change to PLAYING fails,
  or the pipeline starts.
\<close>

datatype outcome = ConstructFails | StartFails | Started

type_synonym environment = "action list \<Rightarrow> string \<Rightarrow> outcome"

datatype py_error = IndexError | ZeroDivisionError | AttributeError

subsection \<open>cleanup_pipeline\<close>

definition cleanup_pipeline :: "viewer \<Rightarrow> viewer" where
  "cleanup_pipeline s =
     (case pipeline s of
        None \<Rightarrow> s
      | Some p \<Rightarrow>
          let s1 = (case timeout_id s of
                      None \<Rightarrow> s
                    | Some t \<Rightarrow>
                        if t \<noteq> 0 then (emit (SourceRemove t) s)\<lparr>timeout_id := None\<rparr> else s);
              s2 = emit (SetState p NULL True) s1;
              s3 = (case bus s2 of
                      None \<Rightarrow> s2
                    | Some b \<Rightarrow> (emit (RemoveSignalWatch b) s2)\<lparr>bus := None\<rparr>);
              s4 = emit (GetState p) s3
          in (emit (Unref p) s4)\<lparr>pipeline := None\<rparr>)"

subsection \<open>create_pipeline\<close>

text \<open>The four pipeline descriptions \<^verbatim>\<open>create_pipeline\<close> chooses from.\<close>

definition pipeline_kind_of :: "string \<Rightarrow> bool \<Rightarrow> pipeline_kind" where
  "pipeline_kind_of media_path video =
     (if video then (if endswith (lower media_path) ''.avi'' then AviChain else Playbin)
      else if endswith (lower media_path) ''.jpg'' \<or> endswith (lower media_path) ''.jpeg''
           then JpegChain
      else DecodebinChain)"

text \<open>
  \<^verbatim>\<open>cleanup_pipeline\<close> has left \<^verbatim>\<open>self.pipeline\<close> at \<^verbatim>\<open>None\<close>, so the assignment of the new
  object drops no older reference. When \<^verbatim>\<open>parse_launch\<close> raises, nothing is assigned;
  when \<^verbatim>\<open>ElementFactory.make\<close> returns \<^verbatim>\<open>None\<close>, that is assigned. Either way the
  function returns False. \<^verbatim>\<open>timeout_add_seconds\<close> takes an unsigned 32-bit number of
  seconds; outside that range the call raises, inside the \<^verbatim>\<open>try\<close>, and the function
  returns False through the \<^verbatim>\<open>except\<close> clause.
\<close>

definition create_pipeline :: "environment \<Rightarrow> string \<Rightarrow> viewer \<Rightarrow> bool \<times> viewer" where
  "create_pipeline env media_path s0 =
     (let s1 = cleanup_pipeline s0;
          s2 = s1\<lparr>is_video := is_video_file media_path\<rparr>;
          kind = pipeline_kind_of media_path (is_video s2)
      in case env (history s2) media_path of
           ConstructFails \<Rightarrow>
             (False, (emit (ConstructFailed kind) s2)
                       \<lparr>pipeline := (if kind = Playbin then None else pipeline s2)\<rparr>)
         | out \<Rightarrow>
             let p = next_id (gst s2);
                 s3 = (emit (Construct p kind) s2)\<lparr>pipeline := Some p\<rparr>;
                 s4 = (emit (AddSignalWatch p) s3)\<lparr>bus := Some p\<rparr>;
                 ret = (out = Started);
                 s5 = emit (SetState p PLAYING ret) s4
             in if \<not> ret then (False, s5)
                else if \<not> is_video s5 then
                  (if 0 \<le> image_interval s5 \<and> image_interval s5 < 2 ^ 32 then
                     let t = next_id (gst s5)
                     in (True, (emit (TimeoutAdd t (image_interval s5)) s5)\<lparr>timeout_id := Some t\<rparr>)
                   else (False, emit (TimeoutRejected (image_interval s5)) s5))
                else (True, s5))"

subsection \<open>on_destroy\<close>

text \<open>\<^verbatim>\<open>self.destroy()\<close> emits the "destroy" signal, whose handler is \<^verbatim>\<open>on_destroy\<close>.\<close>

definition on_destroy :: "viewer \<Rightarrow> viewer" where
  "on_destroy s =
     (let s1 = (case timeout_id s of
                  None \<Rightarrow> s
                | Some t \<Rightarrow> if t \<noteq> 0 then emit (SourceRemove t) s else s);
          s2 = cleanup_pipeline s1
      in emit MainQuit s2)"

definition destroy :: "viewer \<Rightarrow> viewer" where
  "destroy s = on_destroy s"

subsection \<open>Moving to the next file\<close>

text \<open>
  The statement \<^verbatim>\<open>self.current_index = (self.current_index + 1) % len(self.media_files)\<close>,
  which \<^verbatim>\<open>load_current_media\<close> runs after a failed load and \<^verbatim>\<open>change_media\<close> runs first.
  Both run it on a list that is not empty.
\<close>

definition advance_index :: "viewer \<Rightarrow> viewer" where
  "advance_index s = s\<lparr>current_index := (current_index s + 1) mod length (media_files s)\<rparr>"

lemma history_cleanup_pipeline:
  "\<exists>acts. history (cleanup_pipeline s) = history s @ acts"
  by (simp add: cleanup_pipeline_def emit_def Let_def split: option.splits)

lemma media_files_cleanup_pipeline [simp]:
  "media_files (cleanup_pipeline s) = media_files s"
  by (simp add: cleanup_pipeline_def emit_def Let_def split: option.splits)

lemma media_files_create_pipeline [simp]:
  "media_files (snd (create_pipeline env media_path s)) = media_files s"
  by (simp add: create_pipeline_def emit_def Let_def split: outcome.splits)

lemma media_files_create_pipeline_eq:
  "(ok, s') = create_pipeline env media_path s \<Longrightarrow> media_files s' = media_files s"
  by (metis media_files_create_pipeline snd_conv)

subsection \<open>load_current_media\<close>

text \<open>
  The \<^verbatim>\<open>while\<close> loop of \<^verbatim>\<open>load_current_media\<close>, returning the final value of
  \<^verbatim>\<open>attempts\<close> with the state. \<^verbatim>\<open>self.media_files[self.current_index]\<close> raises
  IndexError when the index is not below the length. The recursion ends because each
  turn adds one to \<^verbatim>\<open>attempts\<close> and \<^verbatim>\<open>create_pipeline\<close> leaves the list as it is.
\<close>

function load_loop :: "environment \<Rightarrow> nat \<Rightarrow> viewer \<Rightarrow> py_error + (nat \<times> viewer)" where
  "load_loop env attempts s =
     (if attempts < length (media_files s) then
        (if current_index s < length (media_files s) then
           (let current_file = media_files s ! current_index s
            in case create_pipeline env current_file (emit (Attempt (current_index s)) s) of
                 (True, s') \<Rightarrow> Inr (attempts, s')
               | (False, s') \<Rightarrow>
                   load_loop env (attempts + 1) (advance_index s'))
         else Inl IndexError)
      else Inr (attempts, s))"
  by pat_completeness auto
termination
proof (relation "measure (\<lambda>(env, attempts, s). length (media_files s) - attempts)")
  show "wf (measure (\<lambda>(env, attempts, s). length (media_files s) - attempts))"
    by simp
qed (auto dest!: media_files_create_pipeline_eq simp: emit_def advance_index_def)

declare load_loop.simps [simp del]

definition load_current_media :: "environment \<Rightarrow> viewer \<Rightarrow> py_error + viewer" where
  "load_current_media env s =
     (case load_loop env 0 s of
        Inl e \<Rightarrow> Inl e
      | Inr (attempts, s') \<Rightarrow>
          Inr (if attempts \<ge> length (media_files s') then destroy s' else s'))"

subsection \<open>change_media and the handlers\<close>

text \<open>\<^verbatim>\<open>(self.current_index + 1) % len(self.media_files)\<close> raises on an empty list.\<close>

definition change_media :: "environment \<Rightarrow> viewer \<Rightarrow> py_error + viewer" where
  "change_media env s =
     (if length (media_files s) = 0 then Inl ZeroDivisionError
      else load_current_media env (advance_index s))"

definition initialize_media :: "environment \<Rightarrow> viewer \<Rightarrow> py_error + viewer" where
  "initialize_media env s = load_current_media env s"

definition on_error :: "environment \<Rightarrow> viewer \<Rightarrow> py_error + viewer" where
  "on_error env s = change_media env s"

definition on_eos :: "environment \<Rightarrow> viewer \<Rightarrow> py_error + viewer" where
  "on_eos env s = (if is_video s then change_media env s else Inr s)"

datatype message = MsgError | MsgEos | MsgBuffering int | MsgStateChanged | MsgOther

text \<open>\<^verbatim>\<open>self.pipeline.set_state\<close> on \<^verbatim>\<open>None\<close> raises AttributeError.\<close>

definition on_message :: "message \<Rightarrow> viewer \<Rightarrow> py_error + viewer" where
  "on_message msg s =
     (case msg of
        MsgBuffering percent \<Rightarrow>
          (case pipeline s of
             None \<Rightarrow> Inl AttributeError
           | Some p \<Rightarrow>
               Inr (emit (SetState p (if percent < 100 then PAUSED else PLAYING) True) s))
      | _ \<Rightarrow> Inr s)"

definition on_key_press :: "bool \<Rightarrow> viewer \<Rightarrow> viewer" where
  "on_key_press escape s = (if escape then destroy s else s)"

section \<open>Construction and the main loop\<close>

text \<open>
  \<^verbatim>\<open>__init__\<close>, from the list \<open>found\<close> that the \<^verbatim>\<open>glob\<close> calls produced: on an empty list
  the window is destroyed and no callback is scheduled; otherwise the list is ordered
  and \<^verbatim>\<open>initialize_media\<close> is scheduled as an idle callback.
\<close>

definition init :: "string list \<Rightarrow> int \<Rightarrow> bool \<Rightarrow> (nat \<Rightarrow> nat) \<Rightarrow> viewer" where
  "init found interval shuffle rnd =
     (let s = \<lparr>media_files = found, current_index = 0, image_interval = interval,
               pipeline = None, bus = None, is_video = False, timeout_id = None,
               history = []\<rparr>
      in if media_files s = [] then destroy s
         else emit IdleAdd (s\<lparr>media_files := order_files shuffle rnd (media_files s)\<rparr>))"

text \<open>
  What the main loop can dispatch. A timeout or idle source is dispatched only while it
  is pending, a bus message only while that bus has a signal watch, and nothing after
  \<^verbatim>\<open>Gtk.main_quit()\<close>: the loop returns, and \<^verbatim>\<open>on_destroy\<close> has removed the timer and
  the watch. An exception that leaves a callback is printed and dropped; each
  raise above happens before the callback has changed anything, so the state is the one
  the callback started from. \<^verbatim>\<open>change_media\<close> and \<^verbatim>\<open>initialize_media\<close> return False, which
  makes GLib drop the source that was dispatched.
\<close>

datatype event =
    IdleFired
  | TimerFired nat
  | BusMessage nat message
  | KeyPress bool
  | WindowClosed

definition swallow :: "viewer \<Rightarrow> py_error + viewer \<Rightarrow> viewer" where
  "swallow s r = (case r of Inl e \<Rightarrow> s | Inr s' \<Rightarrow> s')"

text \<open>
  The handlers connected to the bus, in the order of connection: \<^verbatim>\<open>on_message\<close> sees
  every message, then the handler of the message's own kind runs.
\<close>

definition deliver :: "environment \<Rightarrow> message \<Rightarrow> viewer \<Rightarrow> viewer" where
  "deliver env msg s =
     (let s1 = swallow s (on_message msg s)
      in case msg of
           MsgError \<Rightarrow> swallow s1 (on_error env s1)
         | MsgEos \<Rightarrow> swallow s1 (on_eos env s1)
         | _ \<Rightarrow> s1)"

definition step :: "environment \<Rightarrow> event \<Rightarrow> viewer \<Rightarrow> viewer" where
  "step env e s =
     (if quit (gst s) then s
      else case e of
        IdleFired \<Rightarrow>
          if idle_init (gst s) then emit IdleDone (swallow s (initialize_media env s)) else s
      | TimerFired t \<Rightarrow>
          if t \<in> fst ` set (timers (gst s))
          then emit (SourceExpired t) (swallow s (change_media env s)) else s
      | BusMessage b msg \<Rightarrow>
          if b \<in> set (watches (gst s)) then deliver env msg s else s
      | KeyPress escape \<Rightarrow> on_key_press escape s
      | WindowClosed \<Rightarrow> destroy s)"

definition run :: "environment \<Rightarrow> event list \<Rightarrow> viewer \<Rightarrow> viewer" where
  "run env es s = foldl (\<lambda>s e. step env e s) s es"

section \<open>Properties of histories and states\<close>

subsection \<open>Properties that hold at every instant of a history\<close>

text \<open>
  \<open>always P g acts\<close>: replaying \<open>acts\<close> from world \<open>g\<close>, every call is made in a world
  in which \<open>P\<close> allows it.
\<close>

fun always :: "(world \<Rightarrow> action \<Rightarrow> bool) \<Rightarrow> world \<Rightarrow> action list \<Rightarrow> bool" where
  "always P g [] = True"
| "always P g (a # as) = (P g a \<and> always P (effect a g) as)"

text \<open>
  At most one pipeline object is referenced after the call, and a pipeline is constructed
  only when no pipeline is referenced, none is out of the NULL state and no bus has a
  signal watch.
\<close>

definition exclusive :: "world \<Rightarrow> action \<Rightarrow> bool" where
  "exclusive g a \<longleftrightarrow>
     length (live (effect a g)) \<le> 1 \<and>
     (case a of Construct p k \<Rightarrow> live g = [] \<and> started g = [] \<and> watches g = [] | _ \<Rightarrow> True)"

text \<open>A timer is added only when no timer is pending.\<close>

definition arms_alone :: "world \<Rightarrow> action \<Rightarrow> bool" where
  "arms_alone g a \<longleftrightarrow> (case a of TimeoutAdd t secs \<Rightarrow> timers g = [] | _ \<Rightarrow> True)"

text \<open>After the call, a pending timer comes with a referenced pipeline.\<close>

definition timer_has_pipeline :: "world \<Rightarrow> action \<Rightarrow> bool" where
  "timer_has_pipeline g a \<longleftrightarrow> (timers (effect a g) \<noteq> [] \<longrightarrow> live (effect a g) \<noteq> [])"

definition guard :: "world \<Rightarrow> action \<Rightarrow> bool" where
  "guard g a \<longleftrightarrow> exclusive g a \<and> arms_alone g a \<and> timer_has_pipeline g a"

subsection \<open>Attributes that agree with the outside world\<close>

definition opt_list :: "'a option \<Rightarrow> 'a list" where
  "opt_list v = (case v of None \<Rightarrow> [] | Some x \<Rightarrow> [x])"

text \<open>
  The attributes describe the world: the referenced pipeline, the started pipeline and
  the watched bus are \<^verbatim>\<open>self.pipeline\<close>, the pending timer is \<^verbatim>\<open>self.timeout_id\<close> with the
  configured interval, a timer identifier is positive and comes with a pipeline, and the
  index is inside the list.
\<close>

definition consistent :: "viewer \<Rightarrow> bool" where
  "consistent s \<longleftrightarrow>
     live (gst s) = opt_list (pipeline s) \<and>
     started (gst s) = opt_list (pipeline s) \<and>
     watches (gst s) = opt_list (pipeline s) \<and>
     bus s = pipeline s \<and>
     timers (gst s) = map (\<lambda>t. (t, image_interval s)) (opt_list (timeout_id s)) \<and>
     (\<forall>t. timeout_id s = Some t \<longrightarrow> 0 < t \<and> t < next_id (gst s) \<and> pipeline s \<noteq> None) \<and>
     (if media_files s = [] then pipeline s = None
      else current_index s < length (media_files s))"

definition well :: "viewer \<Rightarrow> bool" where
  "well s \<longleftrightarrow> consistent s \<and> always guard gst0 (history s)"

text \<open>The history of \<open>s'\<close> continues the history of \<open>s\<close>.\<close>

definition extends :: "viewer \<Rightarrow> viewer \<Rightarrow> bool" where
  "extends s s' \<longleftrightarrow> prefix (history s) (history s')"

text \<open>A timer identifier held by \<open>s'\<close> was handed out after \<open>s\<close>.\<close>

definition fresh :: "viewer \<Rightarrow> viewer \<Rightarrow> bool" where
  "fresh s s' \<longleftrightarrow> (\<forall>t. timeout_id s' = Some t \<longrightarrow> next_id (gst s) \<le> t)"

definition keeps :: "viewer \<Rightarrow> viewer \<Rightarrow> bool" where
  "keeps s s' \<longleftrightarrow> well s' \<and> extends s s' \<and> media_files s' = media_files s"

text \<open>
  The implication between the two attributes alone; zero is not an identifier, and
  \<^verbatim>\<open>if self.timeout_id:\<close> would take it for \<^verbatim>\<open>None\<close>.
\<close>

definition timer_needs_pipeline :: "viewer \<Rightarrow> bool" where
  "timer_needs_pipeline s \<longleftrightarrow> (\<forall>t. timeout_id s = Some t \<longrightarrow> t \<noteq> 0 \<and> pipeline s \<noteq> None)"

text \<open>The calls that \<^verbatim>\<open>cleanup_pipeline\<close> adds to the history.\<close>

definition teardown_actions :: "viewer \<Rightarrow> action list" where
  "teardown_actions s = drop (length (history s)) (history (cleanup_pipeline s))"

subsection \<open>The files passed to create_pipeline\<close>

fun attempt_of :: "action \<Rightarrow> nat list" where
  "attempt_of (Attempt i) = [i]"
| "attempt_of a = []"

definition attempted :: "action list \<Rightarrow> nat list" where
  "attempted h = concat (map attempt_of h)"

text \<open>
  A file whose load fails whatever happened before: the pipeline never starts, or the
  file is an image and the interval is not one that \<^verbatim>\<open>timeout_add_seconds\<close> takes.
\<close>

definition load_fails :: "environment \<Rightarrow> viewer \<Rightarrow> string \<Rightarrow> bool" where
  "load_fails env s p \<longleftrightarrow>
     (\<forall>h. env h p \<noteq> Started) \<or>
     (\<not> is_video_file p \<and> \<not> (0 \<le> image_interval s \<and> image_interval s < 2 ^ 32))"

text \<open>Each index is the one before it plus one, modulo \<open>n\<close>.\<close>

fun chain :: "nat \<Rightarrow> nat list \<Rightarrow> bool" where
  "chain n (a # b # xs) = (b = (a + 1) mod n \<and> chain n (b # xs))"
| "chain n xs = True"

text \<open>
  \<open>ready\<close>: the index is the one after the last file tried. \<open>tracked\<close>: nothing was tried
  and no pipeline exists, or the main loop was quit, or the index is the last file
  tried and the first load is no longer pending.
\<close>

definition ready :: "viewer \<Rightarrow> bool" where
  "ready s \<longleftrightarrow>
     chain (length (media_files s)) (attempted (history s)) \<and>
     (attempted (history s) = [] \<or>
      current_index s = (last (attempted (history s)) + 1) mod length (media_files s))"

definition tracked :: "viewer \<Rightarrow> bool" where
  "tracked s \<longleftrightarrow>
     chain (length (media_files s)) (attempted (history s)) \<and>
     ((attempted (history s) = [] \<and> pipeline s = None) \<or>
      quit (gst s) \<or>
      (attempted (history s) \<noteq> [] \<and> current_index s = last (attempted (history s)) \<and>
       \<not> idle_init (gst s)))"

subsection \<open>Example sessions\<close>

text \<open>
  An image on screen after the first load; the first load of a session, just before
  \<^verbatim>\<open>create_pipeline\<close>; a state on the second of three files; a session in which one
  video never starts.
\<close>

definition showing_image :: viewer where
  "showing_image = run (\<lambda>h p. Started) [IdleFired] (init [''b.mp4'', ''a.jpg''] 3 False (\<lambda>i. 0))"


definition second_of_three :: viewer where
  "second_of_three = \<lparr>media_files = [''a.jpg'', ''b.mp4'', ''c.png''], current_index = 1,
     image_interval = 3, pipeline = None, bus = None, is_video = False, timeout_id = None,
     history = []\<rparr>"

definition skipping_env :: environment where
  "skipping_env h p = (if p = ''b.mp4'' then StartFails else Started)"

definition three_loads :: viewer where
  "three_loads = run skipping_env [IdleFired, TimerFired 2, BusMessage 4 MsgError]
     (init [''c.png'', ''b.mp4'', ''a.jpg''] 3 False (\<lambda>i. 0))"

section \<open>The world as the sum of the history\<close>

lemma replay_append [simp]: "replay g (xs @ ys) = replay (replay g xs) ys"
  by (simp add: replay_def)

lemma replay_Nil [simp]: "replay g [] = g"
  by (simp add: replay_def)

lemma replay_Cons [simp]: "replay g (a # as) = replay (effect a g) as"
  by (simp add: replay_def)

lemma gst_emit [simp]: "gst (emit a s) = effect a (gst s)"
  by (simp add: gst_def emit_def)

lemma gst_update [simp]:
  "gst (s\<lparr>media_files := mf\<rparr>) = gst s"
  "gst (s\<lparr>current_index := ci\<rparr>) = gst s"
  "gst (s\<lparr>pipeline := pl\<rparr>) = gst s"
  "gst (s\<lparr>bus := b\<rparr>) = gst s"
  "gst (s\<lparr>is_video := v\<rparr>) = gst s"
  "gst (s\<lparr>timeout_id := t\<rparr>) = gst s"
  by (simp_all add: gst_def)

lemma emit_fields [simp]:
  "media_files (emit a s) = media_files s"
  "current_index (emit a s) = current_index s"
  "image_interval (emit a s) = image_interval s"
  "pipeline (emit a s) = pipeline s"
  "bus (emit a s) = bus s"
  "is_video (emit a s) = is_video s"
  "timeout_id (emit a s) = timeout_id s"
  "history (emit a s) = history s @ [a]"
  by (simp_all add: emit_def)

lemma next_id_effect: "next_id g \<le> next_id (effect a g)"
  by (cases a) auto

lemma next_id_replay: "next_id g \<le> next_id (replay g acts)"
proof (induction acts arbitrary: g)
  case Nil
  show ?case by simp
next
  case (Cons a acts)
  have "next_id g \<le> next_id (effect a g)" by (rule next_id_effect)
  also have "\<dots> \<le> next_id (replay (effect a g) acts)" by (rule Cons.IH)
  finally show ?case by simp
qed

lemma next_id_pos: "0 < next_id (gst s)"
proof -
  have "next_id gst0 \<le> next_id (gst s)"
    unfolding gst_def by (rule next_id_replay)
  then show ?thesis by (simp add: gst0_def)
qed

lemma always_append: "always P g (xs @ ys) \<longleftrightarrow> always P g xs \<and> always P (replay g xs) ys"
  by (induction xs arbitrary: g) auto

lemma always_history:
  "always P gst0 (history s @ acts) \<longleftrightarrow> always P gst0 (history s) \<and> always P (gst s) acts"
  by (simp add: always_append gst_def)

lemma always_update [simp]:
  "always P g (history (s\<lparr>media_files := mf\<rparr>)) = always P g (history s)"
  "always P g (history (s\<lparr>current_index := ci\<rparr>)) = always P g (history s)"
  "always P g (history (s\<lparr>pipeline := pl\<rparr>)) = always P g (history s)"
  "always P g (history (s\<lparr>bus := b\<rparr>)) = always P g (history s)"
  "always P g (history (s\<lparr>is_video := v\<rparr>)) = always P g (history s)"
  "always P g (history (s\<lparr>timeout_id := t\<rparr>)) = always P g (history s)"
  by simp_all

lemma well_cleanup_pipeline:
  assumes "well s"
  shows "well (cleanup_pipeline s)" 
  using assms
  by (auto simp add: well_def consistent_def cleanup_pipeline_def Let_def always_history guard_def exclusive_def
      arms_alone_def timer_has_pipeline_def opt_list_def split: option.splits)

lemma pipeline_cleanup_pipeline [simp]: "pipeline (cleanup_pipeline s) = None"
  by (simp add: cleanup_pipeline_def Let_def split: option.splits)

lemma consistent_no_pipeline:
  assumes "consistent s" "pipeline s = None"
  shows "bus s = None" "timeout_id s = None" "live (gst s) = []" "started (gst s) = []"
    "watches (gst s) = []" "timers (gst s) = []"
  using assms by (auto simp: consistent_def opt_list_def split: option.splits)

lemma extends_refl [simp]: "extends s s"
  by (simp add: extends_def)

lemma extends_trans: "extends s s' \<Longrightarrow> extends s' s'' \<Longrightarrow> extends s s''"
  by (auto simp: extends_def)

lemma extends_emit: "extends s s' \<Longrightarrow> extends s (emit a s')"
  by (simp add: extends_def)

lemma extends_next_id: "extends s s' \<Longrightarrow> next_id (gst s) \<le> next_id (gst s')"
  by (auto simp: extends_def prefix_def gst_def next_id_replay)

lemma extends_cleanup_pipeline: "extends s (cleanup_pipeline s)"
  by (simp add: extends_def cleanup_pipeline_def Let_def split: option.splits)

lemma config_cleanup_pipeline [simp]:
  "image_interval (cleanup_pipeline s) = image_interval s"
  "current_index (cleanup_pipeline s) = current_index s"
  by (simp_all add: cleanup_pipeline_def Let_def split: option.splits)

lemma well_create_pipeline:
  assumes "well s" and c: "create_pipeline env p s = (ok, s')" and ne: "media_files s \<noteq> []"
  shows "well s'"
    and "\<not> ok \<Longrightarrow> timeout_id s' = None"
    and "\<forall>t. timeout_id s' = Some t \<longrightarrow> next_id (gst s) \<le> t"
proof -
  define s1 where "s1 = cleanup_pipeline s"
  have w1: "well s1"
    unfolding s1_def using assms(1) by (rule well_cleanup_pipeline)
  have p1: "pipeline s1 = None"
    by (simp add: s1_def)
  have i1: "consistent s1"
    using w1 by (simp add: well_def)
  note f1 = consistent_no_pipeline [OF i1 p1]
  have n1: "next_id (gst s) \<le> next_id (gst s1)"
    unfolding s1_def by (intro extends_next_id extends_cleanup_pipeline)
  have a1: "always guard gst0 (history s1)"
    using w1 by (simp add: well_def)
  have m1: "media_files s1 \<noteq> []" "current_index s1 < length (media_files s1)"
    using i1 ne by (auto simp: consistent_def s1_def)
  show "well s'"
    using c p1 f1 a1 m1 next_id_pos [of s1]
    unfolding create_pipeline_def s1_def [symmetric] Let_def
    by (auto simp: well_def consistent_def always_history guard_def exclusive_def arms_alone_def
        timer_has_pipeline_def opt_list_def split: outcome.splits if_splits)
  show "\<not> ok \<Longrightarrow> timeout_id s' = None"
    using c p1 f1
    unfolding create_pipeline_def s1_def [symmetric] Let_def
    by (auto split: outcome.splits if_splits)
  show "\<forall>t. timeout_id s' = Some t \<longrightarrow> next_id (gst s) \<le> t"
    using c p1 f1 n1
    unfolding create_pipeline_def s1_def [symmetric] Let_def
    by (auto split: outcome.splits if_splits)
qed

lemma create_pipeline_frame:
  assumes "create_pipeline env p s = (ok, s')"
  shows "extends s s'" "media_files s' = media_files s" "image_interval s' = image_interval s"
    "current_index s' = current_index s"
proof -
  obtain acts where a: "history (cleanup_pipeline s) = history s @ acts"
    using history_cleanup_pipeline by blast
  show "extends s s'"
    using assms a unfolding create_pipeline_def Let_def
    by (auto simp: extends_def split: outcome.splits if_splits)
  show "media_files s' = media_files s"
    using assms by (metis media_files_create_pipeline snd_conv)
  show "image_interval s' = image_interval s"
    using assms unfolding create_pipeline_def Let_def
    by (auto split: outcome.splits if_splits)
  show "current_index s' = current_index s"
    using assms unfolding create_pipeline_def Let_def
    by (auto split: outcome.splits if_splits)
qed

lemma well_on_destroy:
  assumes "well s"
  shows "well (on_destroy s)" "quit (gst (on_destroy s))" "pipeline (on_destroy s) = None"
    "extends s (on_destroy s)" "media_files (on_destroy s) = media_files s"
  using assms
  by (auto simp add: well_def consistent_def on_destroy_def cleanup_pipeline_def Let_def always_history
      guard_def exclusive_def arms_alone_def timer_has_pipeline_def opt_list_def extends_def
      split: option.splits)

lemma well_emit_Attempt: "well s \<Longrightarrow> well (emit (Attempt i) s)"
  by (auto simp: well_def consistent_def always_history guard_def exclusive_def arms_alone_def
      timer_has_pipeline_def opt_list_def split: option.splits)

lemma well_advance:
  assumes "well s" "media_files s \<noteq> []"
  shows "well (advance_index s)"
  using assms by (auto simp: well_def consistent_def advance_index_def)

lemma load_loop_well:
  assumes "well s" "load_loop env k s = Inr (k', s')"
  shows "well s' \<and> extends s s' \<and> media_files s' = media_files s \<and>
         (k < length (media_files s) \<or> timeout_id s = None \<longrightarrow>
            (\<forall>t. timeout_id s' = Some t \<longrightarrow> next_id (gst s) \<le> t))"
  using assms
proof (induction env k s rule: load_loop.induct)
  case (1 env k s)
  show ?case
  proof (cases "k < length (media_files s)")
    case False
    with "1.prems" show ?thesis
      by (simp add: load_loop.simps [of env k s])
  next
    case lt: True
    show ?thesis
    proof (cases "current_index s < length (media_files s)")
      case False
      with lt "1.prems" show ?thesis
        by (simp add: load_loop.simps [of env k s])
    next
      case ix: True
      define sa where "sa = emit (Attempt (current_index s)) s"
      define cf where "cf = media_files s ! current_index s"
      obtain ok s1 where c: "create_pipeline env cf sa = (ok, s1)"
        by (cases "create_pipeline env cf sa")
      have wa: "well sa"
        unfolding sa_def using "1.prems"(1) by (rule well_emit_Attempt)
      have nea: "media_files sa \<noteq> []"
        using lt by (auto simp: sa_def)
      note w1 = well_create_pipeline [OF wa c nea]
      note fr = create_pipeline_frame [OF c]
      have ea: "extends s sa"
        by (simp add: sa_def extends_emit)
      have e1: "extends s s1"
        using ea fr(1) by (rule extends_trans)
      have m1: "media_files s1 = media_files s"
        using fr(2) by (simp add: sa_def)
      have n1: "next_id (gst s) \<le> next_id (gst sa)"
        using ea by (rule extends_next_id)
      show ?thesis
      proof (cases ok)
        case True
        with c lt ix "1.prems"(2) have "s' = s1"
          by (simp add: load_loop.simps [of env k s] sa_def cf_def)
        with w1 e1 m1 n1 show ?thesis
          by (auto simp: order_trans)
      next
        case False
        define s2 where "s2 = advance_index s1"
        have ne: "media_files s1 \<noteq> []"
          using m1 lt by auto
        have w2: "well s2"
          unfolding s2_def using w1(1) ne by (rule well_advance)
        have rec: "load_loop env (k + 1) s2 = Inr (k', s')"
          using c lt ix False "1.prems"(2)
          by (simp add: load_loop.simps [of env k s] sa_def cf_def s2_def)
        have t2: "timeout_id s2 = None"
          using w1(2) False by (simp add: s2_def advance_index_def)
        have c': "(False, s1) = create_pipeline env (media_files s ! current_index s)
                     (emit (Attempt (current_index s)) s)"
          using c False by (simp add: cf_def sa_def)
        have ih: "well s' \<and> extends s2 s' \<and> media_files s' = media_files s2 \<and>
           (k + 1 < length (media_files s2) \<or> timeout_id s2 = None \<longrightarrow>
              (\<forall>t. timeout_id s' = Some t \<longrightarrow> next_id (gst s2) \<le> t))"
          using "1.IH" [OF lt ix refl c' refl] w2 rec unfolding s2_def by blast
        have e2: "extends s s2"
          using e1 by (simp add: s2_def extends_def advance_index_def)
        have n2: "next_id (gst s) \<le> next_id (gst s2)"
          using e2 by (rule extends_next_id)
        from ih t2 n2 e2 m1 show ?thesis
          by (auto simp: s2_def advance_index_def intro: extends_trans order_trans)
      qed
    qed
  qed
qed

lemma load_loop_no_error:
  assumes "media_files s = [] \<or> current_index s < length (media_files s)"
  shows "\<exists>k' s'. load_loop env k s = Inr (k', s')"
  using assms
proof (induction env k s rule: load_loop.induct)
  case (1 env k s)
  show ?case
  proof (cases "k < length (media_files s)")
    case False
    then show ?thesis
      by (simp add: load_loop.simps [of env k s])
  next
    case lt: True
    with "1.prems" have ix: "current_index s < length (media_files s)"
      by auto
    obtain ok s1 where c: "create_pipeline env (media_files s ! current_index s)
                             (emit (Attempt (current_index s)) s) = (ok, s1)"
      by (cases "create_pipeline env (media_files s ! current_index s)
                   (emit (Attempt (current_index s)) s)")
    show ?thesis
    proof (cases ok)
      case True
      with c lt ix show ?thesis
        by (simp add: load_loop.simps [of env k s])
    next
      case False
      have m1: "media_files s1 = media_files s"
        using create_pipeline_frame(2) [OF c] by simp
      have "media_files (advance_index s1) = [] \<or>
            current_index (advance_index s1) < length (media_files (advance_index s1))"
        using m1 lt
        by (simp add: advance_index_def mod_less_divisor [OF le_less_trans [OF le0]])
      moreover have c': "(False, s1) = create_pipeline env (media_files s ! current_index s)
                           (emit (Attempt (current_index s)) s)"
        using c False by simp
      ultimately have "\<exists>k' s'. load_loop env (k + 1) (advance_index s1) = Inr (k', s')"
        using "1.IH" [OF lt ix refl c' refl] by blast
      with c lt ix False show ?thesis
        by (simp add: load_loop.simps [of env k s])
    qed
  qed
qed

lemma well_index: "well s \<Longrightarrow> media_files s = [] \<or> current_index s < length (media_files s)"
  by (auto simp: well_def consistent_def split: if_splits)

lemma well_load_current_media:
  assumes "well s"
  shows "\<exists>s'. load_current_media env s = Inr s' \<and> well s' \<and> extends s s' \<and>
           media_files s' = media_files s \<and> fresh s s'"
proof -
  obtain k' s1 where l: "load_loop env 0 s = Inr (k', s1)"
    using load_loop_no_error [OF well_index [OF assms]] by blast
  note w1 = load_loop_well [OF assms l]
  show ?thesis
  proof (cases "k' \<ge> length (media_files s1)")
    case True
    have w1': "well s1" using w1 by simp
    note d = well_on_destroy [OF w1']
    have "timeout_id (on_destroy s1) = None"
      using d(1,3) consistent_no_pipeline(2) by (simp add: well_def)
    with True l d w1 show ?thesis
      by (auto simp: load_current_media_def destroy_def fresh_def intro: extends_trans)
  next
    case False
    have "length (media_files s) \<noteq> 0"
    proof
      assume z: "length (media_files s) = 0"
      then have "load_loop env 0 s = Inr (0, s)"
        by (simp add: load_loop.simps [of env 0 s])
      with l False z show False by simp
    qed
    with False l w1 show ?thesis
      by (auto simp: load_current_media_def fresh_def)
  qed
qed

lemma well_change_media:
  assumes "well s" "media_files s \<noteq> []"
  shows "\<exists>s'. change_media env s = Inr s' \<and> well s' \<and> extends s s' \<and>
           media_files s' = media_files s \<and> fresh s s'"
proof -
  define s1 where "s1 = advance_index s"
  have w1: "well s1"
    unfolding s1_def using assms by (rule well_advance)
  from well_load_current_media [OF w1, of env] assms(2) show ?thesis
    by (auto simp: change_media_def s1_def extends_def fresh_def advance_index_def)
qed

lemma keeps_refl: "well s \<Longrightarrow> keeps s s"
  by (simp add: keeps_def)

lemma keeps_trans: "keeps s s' \<Longrightarrow> keeps s' s'' \<Longrightarrow> keeps s s''"
  by (auto simp: keeps_def intro: extends_trans)

lemma keeps_change_media:
  assumes "well s"
  shows "keeps s (swallow s (change_media env s))"
proof (cases "media_files s = []")
  case True
  with assms show ?thesis
    by (simp add: change_media_def swallow_def keeps_def)
next
  case False
  from well_change_media [OF assms False, of env] show ?thesis
    by (auto simp: swallow_def keeps_def)
qed

lemma keeps_on_message:
  assumes "well s"
  shows "keeps s (swallow s (on_message msg s))"
  using assms
  by (cases msg)
     (auto simp: on_message_def swallow_def keeps_def well_def consistent_def always_history guard_def
        exclusive_def arms_alone_def timer_has_pipeline_def opt_list_def extends_def
        split: option.splits)

lemma keeps_deliver:
  assumes "well s"
  shows "keeps s (deliver env msg s)"
proof -
  define s1 where "s1 = swallow s (on_message msg s)"
  have k1: "keeps s s1"
    unfolding s1_def using assms by (rule keeps_on_message)
  then have w1: "well s1"
    by (simp add: keeps_def)
  have "keeps s1 (swallow s1 (on_error env s1))"
    unfolding on_error_def using w1 by (rule keeps_change_media)
  moreover have "keeps s1 (swallow s1 (on_eos env s1))"
    using keeps_change_media [OF w1, of env] w1
    by (simp add: on_eos_def swallow_def keeps_def)
  ultimately show ?thesis
    using k1 unfolding deliver_def s1_def [symmetric] Let_def
    by (cases msg) (auto intro: keeps_trans)
qed

lemma keeps_destroy:
  assumes "well s"
  shows "keeps s (destroy s)"
  using well_on_destroy [OF assms] by (simp add: keeps_def destroy_def)

lemma keeps_emit_IdleDone: "well s \<Longrightarrow> keeps s (emit IdleDone s)"
  by (auto simp: keeps_def well_def consistent_def always_history guard_def exclusive_def arms_alone_def
      timer_has_pipeline_def opt_list_def extends_def split: option.splits)

lemma keeps_idle:
  assumes "well s"
  shows "keeps s (emit IdleDone (swallow s (initialize_media env s)))"
proof -
  obtain s' where l: "load_current_media env s = Inr s'" and k: "keeps s s'"
    using well_load_current_media [OF assms, of env] by (auto simp: keeps_def)
  have "keeps s' (emit IdleDone s')"
    using k by (intro keeps_emit_IdleDone) (simp add: keeps_def)
  with k l show ?thesis
    by (auto simp: initialize_media_def swallow_def intro: keeps_trans)
qed

lemma keeps_timer:
  assumes "well s" "t \<in> fst ` set (timers (gst s))"
  shows "keeps s (emit (SourceExpired t) (swallow s (change_media env s)))"
proof -
  have t: "timeout_id s = Some t" "t < next_id (gst s)" "pipeline s \<noteq> None"
    using assms by (auto simp: well_def consistent_def opt_list_def split: option.splits)
  then have ne: "media_files s \<noteq> []"
    using assms(1) by (auto simp: well_def consistent_def)
  obtain s' where c: "change_media env s = Inr s'" and w: "well s'" and e: "extends s s'"
    and m: "media_files s' = media_files s" and f: "fresh s s'"
    using well_change_media [OF assms(1) ne, of env] by blast
  have "timeout_id s' \<noteq> Some t"
    using f t(2) by (auto simp: fresh_def)
  with w have "well (emit (SourceExpired t) s')"
    by (auto simp: well_def consistent_def always_history guard_def exclusive_def arms_alone_def
      timer_has_pipeline_def opt_list_def split: option.splits)
  with c e m show ?thesis
    by (simp add: swallow_def keeps_def extends_emit)
qed

lemma keeps_step:
  assumes "well s"
  shows "keeps s (step env e s)"
proof (cases "quit (gst s)")
  case True
  with assms show ?thesis
    by (simp add: step_def keeps_refl)
next
  case False
  show ?thesis
  proof (cases e)
    case IdleFired
    with False assms show ?thesis
      by (simp add: step_def keeps_refl keeps_idle)
  next
    case (TimerFired t)
    with False assms show ?thesis
      by (simp add: step_def keeps_refl keeps_timer)
  next
    case (BusMessage b msg)
    with False assms show ?thesis
      by (simp add: step_def keeps_refl keeps_deliver)
  next
    case (KeyPress escape)
    with False assms show ?thesis
      by (simp add: step_def keeps_refl keeps_destroy on_key_press_def)
  next
    case WindowClosed
    with False assms show ?thesis
      by (simp add: step_def keeps_destroy)
  qed
qed

lemma run_Nil [simp]: "run env [] s = s"
  by (simp add: run_def)

lemma run_Cons [simp]: "run env (e # es) s = run env es (step env e s)"
  by (simp add: run_def)

lemma run_append: "run env (es @ es') s = run env es' (run env es s)"
  by (simp add: run_def)

lemma keeps_run:
  assumes "well s"
  shows "keeps s (run env es s)"
  using assms
proof (induction es arbitrary: s)
  case Nil
  then show ?case by (simp add: keeps_refl)
next
  case (Cons e es)
  have k: "keeps s (step env e s)"
    using Cons.prems by (rule keeps_step)
  then have "well (step env e s)"
    by (simp add: keeps_def)
  then have "keeps (step env e s) (run env es (step env e s))"
    by (rule Cons.IH)
  with k show ?case
    by (auto intro: keeps_trans)
qed

lemma mset_shuffle_loop: "k < length x \<Longrightarrow> mset (shuffle_loop rnd k x) = mset x"
proof (induction k arbitrary: x)
  case 0
  show ?case by simp
next
  case (Suc k)
  let ?j = "rnd (Suc k) mod (Suc k + 1)"
  let ?x = "x[Suc k := x ! ?j, ?j := x ! Suc k]"
  have j: "?j < length x"
  proof -
    have "?j < Suc k + 1"
      by (rule mod_less_divisor) simp
    with Suc.prems show ?thesis
      by linarith
  qed
  have "mset ?x = mset x"
    using Suc.prems j by (simp add: mset_swap)
  moreover have "mset (shuffle_loop rnd k ?x) = mset ?x"
    using Suc.prems by (intro Suc.IH) simp
  ultimately show ?case
    by (simp add: Let_def)
qed

lemma mset_random_shuffle: "mset (random_shuffle rnd x) = mset x"
proof (cases x)
  case Nil
  then show ?thesis by (simp add: random_shuffle_def)
next
  case (Cons a as)
  then show ?thesis
    by (simp add: random_shuffle_def mset_shuffle_loop)
qed

lemma mset_order_files: "mset (order_files shuffle rnd files) = mset files"
  by (simp add: order_files_def mset_random_shuffle)

lemma order_files_Nil_iff: "order_files shuffle rnd files = [] \<longleftrightarrow> files = []"
  by (metis mset_order_files mset_zero_iff)

lemma well_init: "well (init found interval shuffle rnd)"
  by (auto simp: init_def destroy_def on_destroy_def cleanup_pipeline_def Let_def well_def
      consistent_def gst_def gst0_def guard_def exclusive_def arms_alone_def timer_has_pipeline_def
      opt_list_def emit_def order_files_Nil_iff)

lemma well_run_init: "well (run env es (init found interval shuffle rnd))"
  using keeps_run [OF well_init] by (simp add: keeps_def)

lemma media_files_on_destroy [simp]: "media_files (on_destroy s) = media_files s"
  by (simp add: on_destroy_def Let_def split: option.splits)

lemma endswith_iff_suffix: "endswith s suf \<longleftrightarrow> suffix suf s"
proof
  assume "endswith s suf"
  then have "s = take (length s - length suf) s @ suf"
    by (metis append_take_drop_id endswith_def)
  then show "suffix suf s" by (rule suffixI)
next
  assume "suffix suf s"
  then obtain zs where "s = zs @ suf" by (auto simp: suffix_def)
  then show "endswith s suf" by (simp add: endswith_def)
qed

lemma is_video_file_iff:
  "is_video_file p \<longleftrightarrow> (\<exists>ext \<in> set video_extensions. suffix ext (lower p))"
  by (simp add: is_video_file_def list_ex_iff endswith_iff_suffix)

lemma image_suffix_not_video:
  assumes "ext \<in> {''.jpg'', ''.jpeg'', ''.png'', ''.bmp'', ''.gif''}" "suffix ext (lower p)"
  shows "\<not> is_video_file p"
proof
  assume "is_video_file p"
  then obtain v where v: "v \<in> set video_extensions" "suffix v (lower p)"
    by (auto simp: is_video_file_iff)
  from v(2) assms(2) have "suffix v ext \<or> suffix ext v"
    by (rule suffix_same_cases)
  with v(1) assms(1) show False
    by (auto simp: video_extensions_def suffix_to_prefix)
qed

text \<open>
  Claim C9. \<^verbatim>\<open>is_video_file\<close> looks only at the lowercased path: it holds exactly when
  the lowercased path ends with one of the nine video extensions, two paths with the
  same lowercased form get the same answer, a path whose lowercased form ends with an
  image extension is an image, and the kind is "video" or "image" and nothing else.
\<close>

theorem is_video_file_by_suffix:
  "(is_video_file p \<longleftrightarrow>
      (\<exists>ext \<in> {''.mp4'', ''.avi'', ''.mkv'', ''.mov'', ''.webm'', ''.flv'', ''.wmv'',
                ''.mpg'', ''.mpeg''}. suffix ext (lower p))) \<and>
   (lower p = lower q \<longrightarrow> is_video_file p = is_video_file q) \<and>
   ((\<exists>ext \<in> {''.jpg'', ''.jpeg'', ''.png'', ''.bmp'', ''.gif''}. suffix ext (lower p)) \<longrightarrow>
      media_type p = ''image'') \<and>
   (media_type p = ''video'' \<longleftrightarrow> is_video_file p) \<and>
   (media_type p = ''image'' \<longleftrightarrow> \<not> is_video_file p)"
proof (intro conjI)
  show "is_video_file p \<longleftrightarrow>
      (\<exists>ext \<in> {''.mp4'', ''.avi'', ''.mkv'', ''.mov'', ''.webm'', ''.flv'', ''.wmv'',
                ''.mpg'', ''.mpeg''}. suffix ext (lower p))"
    by (simp add: is_video_file_iff video_extensions_def)
  show "lower p = lower q \<longrightarrow> is_video_file p = is_video_file q"
    by (simp add: is_video_file_def)
  show "(\<exists>ext \<in> {''.jpg'', ''.jpeg'', ''.png'', ''.bmp'', ''.gif''}. suffix ext (lower p)) \<longrightarrow>
      media_type p = ''image''"
    using image_suffix_not_video [of _ p] by (auto simp: media_type_def)
  show "media_type p = ''video'' \<longleftrightarrow> is_video_file p"
    by (simp add: media_type_def)
  show "media_type p = ''image'' \<longleftrightarrow> \<not> is_video_file p"
    by (simp add: media_type_def)
qed

theorem is_video_file_by_suffix_witness:
  "lower ''Pictures/IMG_1.JPG'' = lower ''pictures/img_1.jpg'' \<and>
   suffix ''.jpg'' (lower ''Pictures/IMG_1.JPG'') \<and>
   media_type ''Pictures/IMG_1.JPG'' = ''image'' \<and>
   is_video_file ''Pictures/IMG_1.JPG'' = is_video_file ''pictures/img_1.jpg''"
proof -
  have l: "lower ''Pictures/IMG_1.JPG'' = lower ''pictures/img_1.jpg''"
    by (simp add: lower_def lower_char_def)
  have e: "suffix ''.jpg'' (lower ''Pictures/IMG_1.JPG'')"
    by (simp add: lower_def lower_char_def suffix_to_prefix)
  from l e is_video_file_by_suffix [of "''Pictures/IMG_1.JPG''" "''pictures/img_1.jpg''"]
  show ?thesis by blast
qed

lemma media_files_init:
  "media_files (init found interval shuffle rnd) = order_files shuffle rnd found"
  by (cases found) (simp_all add: init_def destroy_def order_files_def random_shuffle_def Let_def)

text \<open>
  Claim C8. Ordering applies one transformation, chosen by the shuffle flag: the
  Fisher-Yates shuffle of the list as found, or the sort by path. Either way the result
  holds the same files the same number of times, and the list is never reordered again
  while the slideshow runs.
\<close>

theorem order_files_permutation:
  "order_files shuffle rnd files = (if shuffle then random_shuffle rnd files else sort files) \<and>
   mset (order_files shuffle rnd files) = mset files \<and>
   set (order_files shuffle rnd files) = set files \<and>
   length (order_files shuffle rnd files) = length files \<and>
   (\<not> shuffle \<longrightarrow> sorted (order_files shuffle rnd files)) \<and>
   mset (media_files (run env es (init files interval shuffle rnd))) = mset files"
proof -
  have m: "mset (order_files shuffle rnd files) = mset files"
    by (rule mset_order_files)
  have "media_files (run env es (init files interval shuffle rnd)) =
        media_files (init files interval shuffle rnd)"
    using keeps_run [OF well_init] by (simp add: keeps_def)
  also have "mset \<dots> = mset files"
    by (simp add: media_files_init m)
  finally have r: "mset (media_files (run env es (init files interval shuffle rnd))) = mset files" .
  show ?thesis
    using m r mset_eq_setD [OF m] mset_eq_length [OF m]
    by (simp add: order_files_def)
qed

theorem order_files_permutation_witness:
  "order_files True (\<lambda>i. 5) [''c.png'', ''a.jpg'', ''b.mp4'', ''d.gif''] =
     [''c.png'', ''d.gif'', ''b.mp4'', ''a.jpg''] \<and>
   mset [''c.png'', ''d.gif'', ''b.mp4'', ''a.jpg''] =
     mset [''c.png'', ''a.jpg'', ''b.mp4'', ''d.gif''] \<and>
   order_files False (\<lambda>i. 5) [''c.png'', ''a.jpg'', ''b.mp4'', ''d.gif''] =
     [''a.jpg'', ''b.mp4'', ''c.png'', ''d.gif''] \<and>
   sorted [''a.jpg'', ''b.mp4'', ''c.png'', ''d.gif'']"
proof -
  have t: "order_files True (\<lambda>i. 5) [''c.png'', ''a.jpg'', ''b.mp4'', ''d.gif''] =
     [''c.png'', ''d.gif'', ''b.mp4'', ''a.jpg'']"
    by code_simp
  have f: "order_files False (\<lambda>i. 5) [''c.png'', ''a.jpg'', ''b.mp4'', ''d.gif''] =
     [''a.jpg'', ''b.mp4'', ''c.png'', ''d.gif'']"
    by code_simp
  have "mset (order_files True (\<lambda>i. 5) [''c.png'', ''a.jpg'', ''b.mp4'', ''d.gif'']) =
        mset [''c.png'', ''a.jpg'', ''b.mp4'', ''d.gif'']"
    using order_files_permutation [of True "\<lambda>i. 5" "[''c.png'', ''a.jpg'', ''b.mp4'', ''d.gif'']"]
    by blast
  then have m: "mset [''c.png'', ''d.gif'', ''b.mp4'', ''a.jpg''] =
        mset [''c.png'', ''a.jpg'', ''b.mp4'', ''d.gif'']"
    unfolding t .
  have "sorted (order_files False (\<lambda>i. 5) [''c.png'', ''a.jpg'', ''b.mp4'', ''d.gif''])"
    using order_files_permutation [of False "\<lambda>i. 5" "[''c.png'', ''a.jpg'', ''b.mp4'', ''d.gif'']"]
    by blast
  then have s: "sorted [''a.jpg'', ''b.mp4'', ''c.png'', ''d.gif'']"
    unfolding f .
  from t m f s show ?thesis
    by blast
qed

lemma always_mono:
  assumes "\<And>g a. P g a \<Longrightarrow> Q g a" "always P g acts"
  shows "always Q g acts"
  using assms(2) by (induction acts arbitrary: g) (auto intro: assms(1))

lemma consistent_cleanup_pipeline: "consistent s \<Longrightarrow> consistent (cleanup_pipeline s)"
  by (auto simp add: consistent_def cleanup_pipeline_def Let_def opt_list_def split: option.splits)


lemma consistent_create_pipeline:
  assumes "consistent s" and c: "create_pipeline env p s = (ok, s')" and ne: "media_files s \<noteq> []"
  shows "consistent s'"
proof -
  define s1 where "s1 = cleanup_pipeline s"
  have i1: "consistent s1"
    unfolding s1_def using assms(1) by (rule consistent_cleanup_pipeline)
  have p1: "pipeline s1 = None"
    by (simp add: s1_def)
  note f1 = consistent_no_pipeline [OF i1 p1]
  have m1: "media_files s1 \<noteq> []" "current_index s1 < length (media_files s1)"
    using i1 ne by (auto simp: consistent_def s1_def)
  show "consistent s'"
    using c p1 f1 m1 next_id_pos [of s1]
    unfolding create_pipeline_def s1_def [symmetric] Let_def
    by (auto simp: consistent_def opt_list_def split: outcome.splits if_splits)
qed

lemma advance_index_funpow:
  assumes "current_index s < length (media_files s)"
  shows "media_files ((advance_index ^^ k) s) = media_files s \<and>
         current_index ((advance_index ^^ k) s) = (current_index s + k) mod length (media_files s)"
proof (induction k)
  case 0
  with assms show ?case by simp
next
  case (Suc k)
  then show ?case
    by (simp add: advance_index_def mod_Suc_eq)
qed

text \<open>
  Claim C7. The index moves modulo the length of the list: from an index inside the
  list, as many steps as there are files lead back to the same index, every step stays
  inside the list, and the step after the last file goes to file 0. In every state the
  slideshow reaches, the index is inside the list.
\<close>

theorem current_index_wraps:
  "(media_files s \<noteq> [] \<and> current_index s < length (media_files s) \<longrightarrow>
      current_index ((advance_index ^^ length (media_files s)) s) = current_index s \<and>
      (\<forall>k. current_index ((advance_index ^^ k) s) < length (media_files s)) \<and>
      (current_index s = length (media_files s) - 1 \<longrightarrow> current_index (advance_index s) = 0)) \<and>
   (media_files (run env es (init found interval shuffle rnd)) = [] \<or>
    current_index (run env es (init found interval shuffle rnd))
      < length (media_files (run env es (init found interval shuffle rnd))))"
proof (intro conjI impI)
  assume a: "media_files s \<noteq> [] \<and> current_index s < length (media_files s)"
  then have ix: "current_index s < length (media_files s)" by simp
  show "current_index ((advance_index ^^ length (media_files s)) s) = current_index s"
    using advance_index_funpow [OF ix, of "length (media_files s)"] ix by simp
  show "\<forall>k. current_index ((advance_index ^^ k) s) < length (media_files s)"
    using advance_index_funpow [OF ix] ix by (simp add: mod_less_divisor [OF le_less_trans [OF le0]])
  show "current_index (advance_index s) = 0" if "current_index s = length (media_files s) - 1"
    using that a by (simp add: advance_index_def)
next
  show "media_files (run env es (init found interval shuffle rnd)) = [] \<or>
    current_index (run env es (init found interval shuffle rnd))
      < length (media_files (run env es (init found interval shuffle rnd)))"
    using well_run_init [of env es found interval shuffle rnd] by (rule well_index)
qed

theorem current_index_wraps_witness:
  "media_files \<lparr>media_files = [''a.jpg'', ''b.mp4'', ''c.png''], current_index = 2,
      image_interval = 3, pipeline = None, bus = None, is_video = False, timeout_id = None,
      history = []\<rparr> \<noteq> [] \<and>
   current_index ((advance_index ^^ 3)
     \<lparr>media_files = [''a.jpg'', ''b.mp4'', ''c.png''], current_index = 2,
      image_interval = 3, pipeline = None, bus = None, is_video = False, timeout_id = None,
      history = []\<rparr>) = 2 \<and>
   current_index (advance_index
     \<lparr>media_files = [''a.jpg'', ''b.mp4'', ''c.png''], current_index = 2,
      image_interval = 3, pipeline = None, bus = None, is_video = False, timeout_id = None,
      history = []\<rparr>) = 0"
  using current_index_wraps [of
     "\<lparr>media_files = [''a.jpg'', ''b.mp4'', ''c.png''], current_index = 2,
      image_interval = 3, pipeline = None, bus = None, is_video = False, timeout_id = None,
      history = []\<rparr>"]
  by (simp add: numeral_3_eq_3)

text \<open>
  Claim C1. Replaying the calls of any run from the start: at every instant at most one
  pipeline object is referenced, and whenever a pipeline is constructed no pipeline is
  referenced, none is out of the NULL state and no bus has a signal watch, so the
  teardown of the previous pipeline is complete before the next one is built.
\<close>

theorem one_pipeline_alive:
  "always exclusive gst0 (history (run env es (init found interval shuffle rnd)))"
proof -
  have "always guard gst0 (history (run env es (init found interval shuffle rnd)))"
    using well_run_init [of env es found interval shuffle rnd] by (simp add: well_def)
  then show ?thesis
    by (rule always_mono [rotated]) (simp add: guard_def)
qed

theorem one_pipeline_alive_witness:
  "history (run (\<lambda>h p. if p = ''b.mp4'' then StartFails else Started)
      [IdleFired, TimerFired 2]
      (init [''c.png'', ''b.mp4'', ''a.jpg''] 3 False (\<lambda>i. 0))) =
     [IdleAdd, Attempt 0, Construct 1 JpegChain, AddSignalWatch 1, SetState 1 PLAYING True,
      TimeoutAdd 2 3, IdleDone, Attempt 1, SourceRemove 2, SetState 1 NULL True,
      RemoveSignalWatch 1, GetState 1, Unref 1, Construct 3 Playbin, AddSignalWatch 3,
      SetState 3 PLAYING False, Attempt 2, SetState 3 NULL True, RemoveSignalWatch 3,
      GetState 3, Unref 3, Construct 4 DecodebinChain, AddSignalWatch 4,
      SetState 4 PLAYING True, TimeoutAdd 5 3, SourceExpired 2] \<and>
   always exclusive gst0
     [IdleAdd, Attempt 0, Construct 1 JpegChain, AddSignalWatch 1, SetState 1 PLAYING True,
      TimeoutAdd 2 3, IdleDone, Attempt 1, SourceRemove 2, SetState 1 NULL True,
      RemoveSignalWatch 1, GetState 1, Unref 1, Construct 3 Playbin, AddSignalWatch 3,
      SetState 3 PLAYING False, Attempt 2, SetState 3 NULL True, RemoveSignalWatch 3,
      GetState 3, Unref 3, Construct 4 DecodebinChain, AddSignalWatch 4,
      SetState 4 PLAYING True, TimeoutAdd 5 3, SourceExpired 2]"
proof -
  have h: "history (run (\<lambda>h p. if p = ''b.mp4'' then StartFails else Started)
      [IdleFired, TimerFired 2]
      (init [''c.png'', ''b.mp4'', ''a.jpg''] 3 False (\<lambda>i. 0))) =
     [IdleAdd, Attempt 0, Construct 1 JpegChain, AddSignalWatch 1, SetState 1 PLAYING True,
      TimeoutAdd 2 3, IdleDone, Attempt 1, SourceRemove 2, SetState 1 NULL True,
      RemoveSignalWatch 1, GetState 1, Unref 1, Construct 3 Playbin, AddSignalWatch 3,
      SetState 3 PLAYING False, Attempt 2, SetState 3 NULL True, RemoveSignalWatch 3,
      GetState 3, Unref 3, Construct 4 DecodebinChain, AddSignalWatch 4,
      SetState 4 PLAYING True, TimeoutAdd 5 3, SourceExpired 2]"
    by code_simp
  from one_pipeline_alive [of "\<lambda>h p. if p = ''b.mp4'' then StartFails else Started"
      "[IdleFired, TimerFired 2]" "[''c.png'', ''b.mp4'', ''a.jpg'']" 3 False "\<lambda>i. 0"]
  show ?thesis
    unfolding h by simp
qed

lemma consistent_run_init: "consistent (run env es (init found interval shuffle rnd))"
  using well_run_init [of env es found interval shuffle rnd] by (simp add: well_def)

lemma create_pipeline_timers:
  assumes "consistent s" and c: "create_pipeline env path s = (True, s')"
  shows "if is_video_file path then timers (gst s') = [] \<and> timeout_id s' = None
         else \<exists>t. timers (gst s') = [(t, image_interval s)] \<and> timeout_id s' = Some t"
proof -
  define s1 where "s1 = cleanup_pipeline s"
  have i1: "consistent s1"
    unfolding s1_def using assms(1) by (rule consistent_cleanup_pipeline)
  have p1: "pipeline s1 = None"
    by (simp add: s1_def)
  note f1 = consistent_no_pipeline [OF i1 p1]
  have v1: "image_interval s1 = image_interval s"
    by (simp add: s1_def)
  show ?thesis
    using c f1 v1
    unfolding create_pipeline_def s1_def [symmetric] Let_def
    by (auto split: outcome.splits if_splits)
qed

text \<open>
  Claim C5. From any consistent state (and every state the slideshow reaches is one),
  a successful \<^verbatim>\<open>create_pipeline\<close> on an image leaves exactly one pending timer, of the
  configured interval, and on a video leaves none; the teardown that opens the call
  leaves no timer pending; and replaying the calls of any run, each timer is added at
  an instant when no timer is pending.
\<close>

theorem single_advance_timer:
  "(consistent s \<and> create_pipeline env path s = (True, s') \<longrightarrow>
      (if is_video_file path then timers (gst s') = [] \<and> timeout_id s' = None
       else \<exists>t. timers (gst s') = [(t, image_interval s)] \<and> timeout_id s' = Some t)) \<and>
   (consistent s \<longrightarrow> timers (gst (cleanup_pipeline s)) = []) \<and>
   (consistent s \<and> media_files s \<noteq> [] \<longrightarrow> consistent (snd (create_pipeline env path s))) \<and>
   consistent (run env es (init found interval shuffle rnd)) \<and>
   always arms_alone gst0 (history (run env es (init found interval shuffle rnd)))"
proof (intro conjI impI)
  assume "consistent s \<and> create_pipeline env path s = (True, s')"
  then show "if is_video_file path then timers (gst s') = [] \<and> timeout_id s' = None
       else \<exists>t. timers (gst s') = [(t, image_interval s)] \<and> timeout_id s' = Some t"
    using create_pipeline_timers by blast
next
  assume "consistent s"
  then have "consistent (cleanup_pipeline s)"
    by (rule consistent_cleanup_pipeline)
  then show "timers (gst (cleanup_pipeline s)) = []"
    by (rule consistent_no_pipeline) simp
next
  assume "consistent s \<and> media_files s \<noteq> []"
  then show "consistent (snd (create_pipeline env path s))"
    using consistent_create_pipeline [of s env path "fst (create_pipeline env path s)"
        "snd (create_pipeline env path s)"]
    by simp
next
  show "consistent (run env es (init found interval shuffle rnd))"
    by (rule consistent_run_init)
next
  have "always guard gst0 (history (run env es (init found interval shuffle rnd)))"
    using well_run_init [of env es found interval shuffle rnd] by (simp add: well_def)
  then show "always arms_alone gst0 (history (run env es (init found interval shuffle rnd)))"
    by (rule always_mono [rotated]) (simp add: guard_def)
qed

theorem single_advance_timer_witness:
  "consistent showing_image \<and>
   timers (gst showing_image) = [(2, 3)] \<and>
   create_pipeline (\<lambda>h p. Started) ''a.jpg'' showing_image =
     (True, snd (create_pipeline (\<lambda>h p. Started) ''a.jpg'' showing_image)) \<and>
   \<not> is_video_file ''a.jpg'' \<and>
   timers (gst (snd (create_pipeline (\<lambda>h p. Started) ''a.jpg'' showing_image))) = [(4, 3)] \<and>
   timeout_id (snd (create_pipeline (\<lambda>h p. Started) ''a.jpg'' showing_image)) = Some 4"
proof -
  have i: "consistent showing_image"
    unfolding showing_image_def by (rule consistent_run_init)
  have c: "create_pipeline (\<lambda>h p. Started) ''a.jpg'' showing_image =
     (True, snd (create_pipeline (\<lambda>h p. Started) ''a.jpg'' showing_image))"
    by code_simp
  have v: "\<not> is_video_file ''a.jpg''"
    by code_simp
  have t0: "timers (gst showing_image) = [(2, 3)]"
    by code_simp
  have iv: "image_interval showing_image = 3"
    by code_simp
  have "consistent showing_image \<and>
        create_pipeline (\<lambda>h p. Started) ''a.jpg'' showing_image =
          (True, snd (create_pipeline (\<lambda>h p. Started) ''a.jpg'' showing_image)) \<longrightarrow>
        (if is_video_file ''a.jpg''
         then timers (gst (snd (create_pipeline (\<lambda>h p. Started) ''a.jpg'' showing_image))) = [] \<and>
              timeout_id (snd (create_pipeline (\<lambda>h p. Started) ''a.jpg'' showing_image)) = None
         else \<exists>t. timers (gst (snd (create_pipeline (\<lambda>h p. Started) ''a.jpg'' showing_image)))
                    = [(t, image_interval showing_image)] \<and>
                  timeout_id (snd (create_pipeline (\<lambda>h p. Started) ''a.jpg'' showing_image))
                    = Some t)"
    by (rule conjunct1 [OF single_advance_timer])
  with i c v
  obtain t where t: "timers (gst (snd (create_pipeline (\<lambda>h p. Started) ''a.jpg'' showing_image)))
      = [(t, image_interval showing_image)]"
    "timeout_id (snd (create_pipeline (\<lambda>h p. Started) ''a.jpg'' showing_image)) = Some t"
    by auto
  have "timeout_id (snd (create_pipeline (\<lambda>h p. Started) ''a.jpg'' showing_image)) = Some 4"
    by code_simp
  with t have "t = 4" by simp
  with t i c v t0 iv show ?thesis by simp
qed

lemma tnp_cleanup_pipeline:
  assumes "timer_needs_pipeline s"
  shows "timer_needs_pipeline (cleanup_pipeline s)" "timeout_id (cleanup_pipeline s) = None"
  using assms
  by (auto simp: timer_needs_pipeline_def cleanup_pipeline_def Let_def split: option.splits)

lemma tnp_on_destroy:
  assumes "timer_needs_pipeline s"
  shows "timer_needs_pipeline (on_destroy s)"
  using assms
  by (auto simp: timer_needs_pipeline_def on_destroy_def cleanup_pipeline_def Let_def
      split: option.splits)

lemma tnp_create_pipeline:
  assumes "timer_needs_pipeline s"
  shows "timer_needs_pipeline (snd (create_pipeline env path s))"
proof -
  define s1 where "s1 = cleanup_pipeline s"
  have "timeout_id s1 = None"
    unfolding s1_def using assms by (rule tnp_cleanup_pipeline)
  then show ?thesis
    using next_id_pos [of s1]
    unfolding create_pipeline_def s1_def [symmetric] Let_def
    by (auto simp: timer_needs_pipeline_def split: outcome.splits)
qed

lemma tnp_load_loop:
  assumes "timer_needs_pipeline s" "load_loop env k s = Inr (k', s')"
  shows "timer_needs_pipeline s'"
  using assms
proof (induction env k s rule: load_loop.induct)
  case (1 env k s)
  show ?case
  proof (cases "k < length (media_files s) \<and> current_index s < length (media_files s)")
    case False
    with "1.prems" show ?thesis
      by (auto simp: load_loop.simps [of env k s] split: if_splits)
  next
    case True
    then have lt: "k < length (media_files s)" and ix: "current_index s < length (media_files s)"
      by simp_all
    obtain ok s1 where c: "create_pipeline env (media_files s ! current_index s)
                             (emit (Attempt (current_index s)) s) = (ok, s1)"
      by (cases "create_pipeline env (media_files s ! current_index s)
                   (emit (Attempt (current_index s)) s)")
    have "timer_needs_pipeline (emit (Attempt (current_index s)) s)"
      using "1.prems"(1) by (simp add: timer_needs_pipeline_def)
    then have t1: "timer_needs_pipeline s1"
      using tnp_create_pipeline [of "emit (Attempt (current_index s)) s" env
          "media_files s ! current_index s"] c by simp
    show ?thesis
    proof (cases ok)
      case True
      with c lt ix "1.prems"(2) t1 show ?thesis
        by (simp add: load_loop.simps [of env k s])
    next
      case False
      have c': "(False, s1) = create_pipeline env (media_files s ! current_index s)
                   (emit (Attempt (current_index s)) s)"
        using c False by simp
      have t2: "timer_needs_pipeline (advance_index s1)"
        using t1 by (simp add: timer_needs_pipeline_def advance_index_def)
      have rec: "load_loop env (k + 1) (advance_index s1) = Inr (k', s')"
        using c lt ix False "1.prems"(2) by (simp add: load_loop.simps [of env k s])
      show ?thesis
        using "1.IH" [OF lt ix refl c' refl t2 rec] .
    qed
  qed
qed

lemma tnp_load_current_media:
  assumes "timer_needs_pipeline s"
  shows "timer_needs_pipeline (swallow s (load_current_media env s))"
proof (cases "load_loop env 0 s")
  case (Inl e)
  with assms show ?thesis
    by (simp add: load_current_media_def swallow_def)
next
  case (Inr r)
  obtain k' s' where r: "r = (k', s')" by (cases r)
  have "timer_needs_pipeline s'"
    using assms Inr unfolding r by (rule tnp_load_loop)
  with Inr r show ?thesis
    by (simp add: load_current_media_def swallow_def destroy_def tnp_on_destroy)
qed

lemma tnp_change_media:
  assumes "timer_needs_pipeline s"
  shows "timer_needs_pipeline (swallow s (change_media env s))"
proof (cases "length (media_files s) = 0")
  case True
  with assms show ?thesis
    by (simp add: change_media_def swallow_def)
next
  case False
  have a: "timer_needs_pipeline (advance_index s)"
    using assms by (simp add: timer_needs_pipeline_def advance_index_def)
  show ?thesis
    using tnp_load_current_media [OF a, of env] False assms
    by (auto simp: change_media_def swallow_def split: sum.splits)
qed

text \<open>
  Claim C10. In every state the slideshow reaches, a \<^verbatim>\<open>timeout_id\<close> that is not
  \<^verbatim>\<open>None\<close> comes with a \<^verbatim>\<open>pipeline\<close> that is not \<^verbatim>\<open>None\<close>; replaying the calls of any
  run, at every instant a pending timer comes with a referenced pipeline; and
  \<^verbatim>\<open>cleanup_pipeline\<close>, \<^verbatim>\<open>on_destroy\<close>, \<^verbatim>\<open>create_pipeline\<close>, \<^verbatim>\<open>load_current_media\<close> and
  \<^verbatim>\<open>change_media\<close> each keep the implication (with identifiers that are not zero, as
  GLib's are).
\<close>

theorem timer_implies_pipeline:
  "(timeout_id (run env es (init found interval shuffle rnd)) \<noteq> None \<longrightarrow>
      pipeline (run env es (init found interval shuffle rnd)) \<noteq> None) \<and>
   always timer_has_pipeline gst0 (history (run env es (init found interval shuffle rnd))) \<and>
   (timer_needs_pipeline s \<longrightarrow>
      timer_needs_pipeline (cleanup_pipeline s) \<and>
      timer_needs_pipeline (on_destroy s) \<and>
      timer_needs_pipeline (snd (create_pipeline env path s)) \<and>
      timer_needs_pipeline (swallow s (load_current_media env s)) \<and>
      timer_needs_pipeline (swallow s (change_media env s)))"
proof (intro conjI impI)
  assume "timeout_id (run env es (init found interval shuffle rnd)) \<noteq> None"
  then show "pipeline (run env es (init found interval shuffle rnd)) \<noteq> None"
    using consistent_run_init [of env es found interval shuffle rnd]
    by (auto simp: consistent_def)
next
  have "always guard gst0 (history (run env es (init found interval shuffle rnd)))"
    using well_run_init [of env es found interval shuffle rnd] by (simp add: well_def)
  then show "always timer_has_pipeline gst0
      (history (run env es (init found interval shuffle rnd)))"
    by (rule always_mono [rotated]) (simp add: guard_def)
qed (simp_all add: tnp_cleanup_pipeline tnp_on_destroy tnp_create_pipeline
      tnp_load_current_media tnp_change_media)

theorem timer_implies_pipeline_witness:
  "timeout_id showing_image = Some 2 \<and> pipeline showing_image = Some 1 \<and>
   timer_needs_pipeline showing_image \<and>
   timer_needs_pipeline (cleanup_pipeline showing_image) \<and>
   timer_needs_pipeline (swallow showing_image (change_media (\<lambda>h p. Started) showing_image))"
proof -
  have t: "timeout_id showing_image = Some 2"
    by code_simp
  have p: "pipeline showing_image = Some 1"
    by code_simp
  have n: "timer_needs_pipeline showing_image"
    by (simp add: timer_needs_pipeline_def t p)
  from t p n timer_implies_pipeline [where s = showing_image and env = "\<lambda>h p. Started"]
  show ?thesis
    by blast
qed

text \<open>
  With an image on screen and its timer pending, the calls of \<^verbatim>\<open>cleanup_pipeline\<close> start
  with the removal of the timer and the stop request; the removal of the signal watch is
  the third call, not the first.
\<close>

theorem teardown_first_step_counterexample:
  "pipeline showing_image = Some 1 \<and>
   teardown_actions showing_image =
     [SourceRemove 2, SetState 1 NULL True, RemoveSignalWatch 1, GetState 1, Unref 1] \<and>
   hd (teardown_actions showing_image) \<noteq> RemoveSignalWatch 1"
proof -
  have p: "pipeline showing_image = Some 1"
    by code_simp
  have a: "teardown_actions showing_image =
     [SourceRemove 2, SetState 1 NULL True, RemoveSignalWatch 1, GetState 1, Unref 1]"
    by code_simp
  show ?thesis
    unfolding a using p by simp
qed

text \<open>
  Claim C6, as amended. Teardown of pipeline \<open>p\<close> makes these calls in this order:
  the removal of a pending timer, the request to go to NULL, the removal of the bus
  signal watch, the blocking wait, the release of the reference. The watch is removed
  after the stop request and before the wait and the release. When
  \<^verbatim>\<open>cleanup_pipeline\<close> returns no bus has a signal watch, and the main loop delivers no
  bus message to the handlers.
\<close>

theorem teardown_order:
  "(consistent s \<and> pipeline s = Some p \<longrightarrow>
      teardown_actions s =
        (case timeout_id s of None \<Rightarrow> [] | Some t \<Rightarrow> [SourceRemove t]) @
        [SetState p NULL True, RemoveSignalWatch p, GetState p, Unref p] \<and>
      watches (gst (cleanup_pipeline s)) = [] \<and>
      step env (BusMessage b msg) (cleanup_pipeline s) = cleanup_pipeline s) \<and>
   (pipeline s = None \<longrightarrow> teardown_actions s = [])"
proof (intro conjI impI)
  assume a: "consistent s \<and> pipeline s = Some p"
  then show "teardown_actions s =
        (case timeout_id s of None \<Rightarrow> [] | Some t \<Rightarrow> [SourceRemove t]) @
        [SetState p NULL True, RemoveSignalWatch p, GetState p, Unref p]"
    by (auto simp: teardown_actions_def cleanup_pipeline_def consistent_def Let_def
        split: option.splits)
  have "consistent (cleanup_pipeline s)"
    using a by (simp add: consistent_cleanup_pipeline)
  then show w: "watches (gst (cleanup_pipeline s)) = []"
    by (rule consistent_no_pipeline) simp
  then show "step env (BusMessage b msg) (cleanup_pipeline s) = cleanup_pipeline s"
    by (simp add: step_def)
next
  assume "pipeline s = None"
  then show "teardown_actions s = []"
    by (simp add: teardown_actions_def cleanup_pipeline_def)
qed

theorem teardown_order_witness:
  "consistent showing_image \<and> pipeline showing_image = Some 1 \<and>
   teardown_actions showing_image =
     [SourceRemove 2] @ [SetState 1 NULL True, RemoveSignalWatch 1, GetState 1, Unref 1] \<and>
   watches (gst showing_image) = [1] \<and>
   watches (gst (cleanup_pipeline showing_image)) = []"
proof -
  have i: "consistent showing_image"
    unfolding showing_image_def by (rule consistent_run_init)
  have p: "pipeline showing_image = Some 1"
    by code_simp
  have t: "timeout_id showing_image = Some 2"
    by code_simp
  have w: "watches (gst showing_image) = [1]"
    by code_simp
  from teardown_order [of showing_image 1] i p t w show ?thesis
    by simp
qed






lemma attempted_append [simp]: "attempted (xs @ ys) = attempted xs @ attempted ys"
  by (simp add: attempted_def)

lemma attempted_Nil [simp]: "attempted [] = []"
  by (simp add: attempted_def)

lemma attempted_Cons [simp]: "attempted (a # h) = attempt_of a @ attempted h"
  by (simp add: attempted_def)

lemma attempted_cleanup_pipeline [simp]:
  "attempted (history (cleanup_pipeline s)) = attempted (history s)"
  by (simp add: cleanup_pipeline_def Let_def split: option.splits)

lemma attempted_on_destroy [simp]:
  "attempted (history (on_destroy s)) = attempted (history s)"
  by (simp add: on_destroy_def Let_def split: option.splits)

lemma attempted_create_pipeline:
  "attempted (history (snd (create_pipeline env p s))) = attempted (history s)"
  by (simp add: create_pipeline_def Let_def split: outcome.splits)

lemma quit_on_destroy [simp]: "quit (gst (on_destroy s))"
  by (simp add: on_destroy_def Let_def)

lemma last_on_destroy [simp]: "last (history (on_destroy s)) = MainQuit"
  by (simp add: on_destroy_def Let_def)

lemma create_pipeline_fails:
  assumes "load_fails env s p" "image_interval s1 = image_interval s"
  shows "fst (create_pipeline env p s1) = False"
  using assms
  by (auto simp: create_pipeline_def load_fails_def Let_def split: outcome.splits)

lemma map_upt_shift:
  assumes "0 < n"
  shows "i mod n # map (\<lambda>j. ((i + 1) mod n + j) mod n) [0..<m] = map (\<lambda>j. (i + j) mod n) [0..<Suc m]"
proof -
  have "map (\<lambda>j. (i + j) mod n) [0..<Suc m] = (i + 0) mod n # map (\<lambda>j. (i + Suc j) mod n) [0..<m]"
    by (simp only: map_upt_Suc)
  moreover have "((i + 1) mod n + j) mod n = (i + Suc j) mod n" for j
    by (simp add: mod_add_left_eq)
  ultimately show ?thesis
    by simp
qed

lemma load_loop_all_fail:
  assumes "\<forall>p \<in> set (media_files s). load_fails env s p"
    and "current_index s < length (media_files s)"
    and "k \<le> length (media_files s)"
  shows "\<exists>s'. load_loop env k s = Inr (length (media_files s), s') \<and>
           media_files s' = media_files s \<and>
           attempted (history s') = attempted (history s) @
             map (\<lambda>j. (current_index s + j) mod length (media_files s))
               [0..<length (media_files s) - k]"
  using assms
proof (induction env k s rule: load_loop.induct)
  case (1 env k s)
  let ?n = "length (media_files s)"
  let ?i = "current_index s"
  show ?case
  proof (cases "k < ?n")
    case False
    then have "load_loop env k s = Inr (k, s)"
      by (simp add: load_loop.simps [of env k s])
    moreover from False "1.prems"(3) have "k = ?n" by simp
    ultimately show ?thesis
      by simp
  next
    case lt: True
    note ix = "1.prems"(2)
    define sa where "sa = emit (Attempt ?i) s"
    define cf where "cf = media_files s ! ?i"
    obtain ok s1 where c: "create_pipeline env cf sa = (ok, s1)"
      by (cases "create_pipeline env cf sa")
    have "cf \<in> set (media_files s)"
      using ix by (simp add: cf_def)
    then have "load_fails env s cf"
      using "1.prems"(1) by blast
    then have "fst (create_pipeline env cf sa) = False"
      by (rule create_pipeline_fails) (simp add: sa_def)
    with c have ok: "ok = False" by simp
    note fr = create_pipeline_frame [OF c]
    have m1: "media_files s1 = media_files s"
      using fr(2) by (simp add: sa_def)
    have v1: "image_interval s1 = image_interval s"
      using fr(3) by (simp add: sa_def)
    have i1: "current_index s1 = ?i"
      using fr(4) by (simp add: sa_def)
    have a1: "attempted (history s1) = attempted (history s) @ [?i]"
      using attempted_create_pipeline [of env cf sa] c by (simp add: sa_def)
    define s2 where "s2 = advance_index s1"
    have m2: "media_files s2 = media_files s"
      by (simp add: s2_def advance_index_def m1)
    have i2: "current_index s2 = (?i + 1) mod ?n"
      by (simp add: s2_def advance_index_def m1 i1)
    have f2: "\<forall>p \<in> set (media_files s2). load_fails env s2 p"
      using "1.prems"(1) by (simp add: m1 load_fails_def s2_def advance_index_def v1)
    have n0: "0 < ?n"
      using lt by (rule le_less_trans [OF le0])
    have ix2: "current_index s2 < length (media_files s2)"
      using n0 by (simp add: m2 i2)
    have k2: "k + 1 \<le> length (media_files s2)"
      using lt by (simp add: m2)
    have c': "(False, s1) = create_pipeline env (media_files s ! ?i) (emit (Attempt ?i) s)"
      using c ok by (simp add: cf_def sa_def)
    obtain s' where r: "load_loop env (k + 1) s2 = Inr (?n, s')"
      and ms: "media_files s' = media_files s"
      and at: "attempted (history s') = attempted (history s2) @
             map (\<lambda>j. ((?i + 1) mod ?n + j) mod ?n) [0..<?n - (k + 1)]"
      using "1.IH" [OF lt ix refl c' refl, folded s2_def, OF f2 ix2 k2]
      by (auto simp: m2 i2)
    have l: "load_loop env k s = Inr (?n, s')"
      using c ok lt ix r by (simp add: load_loop.simps [of env k s] s2_def cf_def sa_def)
    have "attempted (history s2) = attempted (history s) @ [?i]"
      by (simp add: s2_def advance_index_def a1)
    moreover have "Suc (?n - (k + 1)) = ?n - k"
      using lt by simp
    moreover have "?i mod ?n = ?i"
      using ix by simp
    ultimately have "attempted (history s') = attempted (history s) @
             map (\<lambda>j. (?i + j) mod ?n) [0..<?n - k]"
      using at map_upt_shift [OF n0, of ?i "?n - (k + 1)"] by simp
    with l ms show ?thesis
      by blast
  qed
qed

text \<open>
  Claim C2. On a list that is not empty and in which every file fails to load, the loop
  of \<^verbatim>\<open>load_current_media\<close> returns (the function is total, and the result is not an
  error), it has passed exactly \<open>len(media_files)\<close> files to \<^verbatim>\<open>create_pipeline\<close>, at the
  indices that follow the starting index modulo the length, and it ends with
  \<^verbatim>\<open>destroy\<close>: the last call is \<^verbatim>\<open>Gtk.main_quit()\<close>. The same holds for
  \<^verbatim>\<open>change_media\<close>, one index further.
\<close>

theorem all_fail_terminates:
  "media_files s \<noteq> [] \<and> current_index s < length (media_files s) \<and>
   (\<forall>p \<in> set (media_files s). load_fails env s p) \<longrightarrow>
     (\<exists>s'. load_current_media env s = Inr s' \<and> quit (gst s') \<and> last (history s') = MainQuit \<and>
        attempted (history s') = attempted (history s) @
          map (\<lambda>j. (current_index s + j) mod length (media_files s))
            [0..<length (media_files s)]) \<and>
     (\<exists>s'. change_media env s = Inr s' \<and> quit (gst s') \<and> last (history s') = MainQuit \<and>
        attempted (history s') = attempted (history s) @
          map (\<lambda>j. (current_index s + 1 + j) mod length (media_files s))
            [0..<length (media_files s)])"
proof
  assume a: "media_files s \<noteq> [] \<and> current_index s < length (media_files s) \<and>
   (\<forall>p \<in> set (media_files s). load_fails env s p)"
  have load: "\<exists>s'. load_current_media env u = Inr s' \<and> quit (gst s') \<and>
        last (history s') = MainQuit \<and>
        attempted (history s') = attempted (history u) @
          map (\<lambda>j. (current_index u + j) mod length (media_files u)) [0..<length (media_files u)]"
    if f: "\<forall>p \<in> set (media_files u). load_fails env u p"
      and ix: "current_index u < length (media_files u)" for u
  proof -
    obtain s1 where l: "load_loop env 0 u = Inr (length (media_files u), s1)"
      and m: "media_files s1 = media_files u"
      and at: "attempted (history s1) = attempted (history u) @
             map (\<lambda>j. (current_index u + j) mod length (media_files u))
               [0..<length (media_files u) - 0]"
      using load_loop_all_fail [OF f ix, of 0] by auto
    have "load_current_media env u = Inr (destroy s1)"
      using l m by (simp add: load_current_media_def)
    with at show ?thesis
      by (simp add: destroy_def)
  qed
  have first: "\<exists>s'. load_current_media env s = Inr s' \<and> quit (gst s') \<and>
        last (history s') = MainQuit \<and>
        attempted (history s') = attempted (history s) @
          map (\<lambda>j. (current_index s + j) mod length (media_files s)) [0..<length (media_files s)]"
    using a by (intro load) simp_all
  have n0: "0 < length (media_files s)"
    using a by simp
  have "\<forall>p \<in> set (media_files (advance_index s)). load_fails env (advance_index s) p"
    using a by (simp add: advance_index_def load_fails_def)
  moreover have "current_index (advance_index s) < length (media_files (advance_index s))"
    using n0 by (simp add: advance_index_def)
  ultimately obtain s' where "load_current_media env (advance_index s) = Inr s'"
    "quit (gst s')" "last (history s') = MainQuit"
    "attempted (history s') = attempted (history (advance_index s)) @
          map (\<lambda>j. (current_index (advance_index s) + j) mod
                 length (media_files (advance_index s)))
            [0..<length (media_files (advance_index s))]"
    using load [of "advance_index s"] by blast
  then have second: "\<exists>s'. change_media env s = Inr s' \<and> quit (gst s') \<and>
        last (history s') = MainQuit \<and>
        attempted (history s') = attempted (history s) @
          map (\<lambda>j. (current_index s + 1 + j) mod length (media_files s))
            [0..<length (media_files s)]"
    using n0 by (simp add: change_media_def advance_index_def mod_add_left_eq)
  from first second show
    "(\<exists>s'. load_current_media env s = Inr s' \<and> quit (gst s') \<and> last (history s') = MainQuit \<and>
        attempted (history s') = attempted (history s) @
          map (\<lambda>j. (current_index s + j) mod length (media_files s))
            [0..<length (media_files s)]) \<and>
     (\<exists>s'. change_media env s = Inr s' \<and> quit (gst s') \<and> last (history s') = MainQuit \<and>
        attempted (history s') = attempted (history s) @
          map (\<lambda>j. (current_index s + 1 + j) mod length (media_files s))
            [0..<length (media_files s)])"
    by (rule conjI)
qed

theorem all_fail_terminates_witness:
  "media_files second_of_three \<noteq> [] \<and>
   current_index second_of_three < length (media_files second_of_three) \<and>
   load_fails (\<lambda>h p. StartFails) second_of_three ''a.jpg'' \<and>
   load_fails (\<lambda>h p. StartFails) second_of_three ''b.mp4'' \<and>
   load_fails (\<lambda>h p. StartFails) second_of_three ''c.png'' \<and>
   (\<exists>s'. load_current_media (\<lambda>h p. StartFails) second_of_three = Inr s' \<and> quit (gst s') \<and>
      attempted (history s') = [1, 2, 0])"
proof -
  have m: "media_files second_of_three = [''a.jpg'', ''b.mp4'', ''c.png'']"
    and i: "current_index second_of_three = 1"
    and h: "history second_of_three = []"
    by (simp_all add: second_of_three_def)
  have f: "\<forall>p \<in> set (media_files second_of_three). load_fails (\<lambda>h p. StartFails) second_of_three p"
    by (simp add: load_fails_def)
  have u: "map (\<lambda>j. (1 + j) mod 3) [0..<3] = [1, 2, 0::nat]"
    by code_simp
  from all_fail_terminates [of second_of_three "\<lambda>h p. StartFails"] f
  show ?thesis
    by (auto simp add: m i h u numeral_2_eq_2)
qed

lemma chain_snoc:
  "chain n (xs @ [b]) \<longleftrightarrow> chain n xs \<and> (xs = [] \<or> b = (last xs + 1) mod n)"
  by (induction n xs rule: chain.induct) auto

lemma chain_nth:
  "chain n xs \<Longrightarrow> Suc k < length xs \<Longrightarrow> xs ! Suc k = (xs ! k + 1) mod n"
proof (induction n xs arbitrary: k rule: chain.induct)
  case (1 n a b xs)
  then show ?case
    by (cases k) auto
qed auto

lemma load_loop_preserves:
  assumes emit: "\<And>u. P u \<Longrightarrow> P (emit (Attempt (current_index u)) u)"
    and create: "\<And>u p. P u \<Longrightarrow> P (snd (create_pipeline env p u))"
    and advance: "\<And>u. P u \<Longrightarrow> P (advance_index u)"
    and "P s" "load_loop env k s = Inr (k', s')"
  shows "P s'"
  using assms(4,5)
proof (induction "length (media_files s) - k" arbitrary: k s)
  case 0
  from "0.hyps" have "load_loop env k s = Inr (k, s)"
    by (simp add: load_loop.simps [of env k s])
  with "0.prems" show ?case by simp
next
  case (Suc m)
  then have lt: "k < length (media_files s)" by simp
  show ?case
  proof (cases "current_index s < length (media_files s)")
    case False
    with lt Suc.prems(2) show ?thesis
      by (simp add: load_loop.simps [of env k s])
  next
    case ix: True
    define sa where "sa = emit (Attempt (current_index s)) s"
    define cf where "cf = media_files s ! current_index s"
    obtain ok s1 where c: "create_pipeline env cf sa = (ok, s1)"
      by (cases "create_pipeline env cf sa")
    have "P sa"
      unfolding sa_def using Suc.prems(1) by (rule emit)
    then have "P (snd (create_pipeline env cf sa))"
      by (rule create)
    then have p1: "P s1"
      using c by simp
    show ?thesis
    proof (cases ok)
      case True
      with c lt ix Suc.prems(2) have "s' = s1"
        by (simp add: load_loop.simps [of env k s] sa_def cf_def)
      with p1 show ?thesis by simp
    next
      case False
      have m1: "media_files s1 = media_files s"
        using create_pipeline_frame(2) [OF c] by (simp add: sa_def)
      have rec: "load_loop env (k + 1) (advance_index s1) = Inr (k', s')"
        using c lt ix False Suc.prems(2)
        by (simp add: load_loop.simps [of env k s] sa_def cf_def)
      have "m = length (media_files (advance_index s1)) - (k + 1)"
        using Suc.hyps(2) by (simp add: advance_index_def m1)
      then show ?thesis
        using advance [OF p1] rec by (rule Suc.hyps(1))
    qed
  qed
qed

lemma idle_cleanup_pipeline [simp]:
  "idle_init (gst (cleanup_pipeline s)) = idle_init (gst s)"
  by (simp add: cleanup_pipeline_def Let_def split: option.splits)

lemma idle_create_pipeline [simp]:
  "idle_init (gst (snd (create_pipeline env p s))) = idle_init (gst s)"
  by (simp add: create_pipeline_def Let_def split: outcome.splits)

lemma idle_on_destroy [simp]:
  "idle_init (gst (on_destroy s)) = idle_init (gst s)"
  by (simp add: on_destroy_def Let_def split: option.splits)

lemma idle_load_loop:
  assumes "load_loop env k s = Inr (k', s')"
  shows "idle_init (gst s') = idle_init (gst s)"
  using _ _ _ refl assms
  by (rule load_loop_preserves [where P = "\<lambda>u. idle_init (gst u) = idle_init (gst s)"])
     (simp_all add: advance_index_def)

lemma load_loop_chain:
  assumes "ready s" "load_loop env k s = Inr (k', s')"
  shows "chain (length (media_files s)) (attempted (history s')) \<and>
         media_files s' = media_files s \<and>
         (k' < length (media_files s) \<longrightarrow>
            attempted (history s') \<noteq> [] \<and> current_index s' = last (attempted (history s')))"
  using assms
proof (induction env k s rule: load_loop.induct)
  case (1 env k s)
  let ?n = "length (media_files s)"
  let ?i = "current_index s"
  show ?case
  proof (cases "k < ?n")
    case False
    then have "load_loop env k s = Inr (k, s)"
      by (simp add: load_loop.simps [of env k s])
    with False "1.prems" show ?thesis
      by (simp add: ready_def)
  next
    case lt: True
    show ?thesis
    proof (cases "?i < ?n")
      case False
      with lt "1.prems"(2) show ?thesis
        by (simp add: load_loop.simps [of env k s])
    next
      case ix: True
      define sa where "sa = emit (Attempt ?i) s"
      define cf where "cf = media_files s ! ?i"
      obtain ok s1 where c: "create_pipeline env cf sa = (ok, s1)"
        by (cases "create_pipeline env cf sa")
      note fr = create_pipeline_frame [OF c]
      have m1: "media_files s1 = media_files s"
        using fr(2) by (simp add: sa_def)
      have i1: "current_index s1 = ?i"
        using fr(4) by (simp add: sa_def)
      have a1: "attempted (history s1) = attempted (history s) @ [?i]"
        using attempted_create_pipeline [of env cf sa] c by (simp add: sa_def)
      have ch1: "chain ?n (attempted (history s1))"
        using "1.prems"(1) by (auto simp: a1 chain_snoc ready_def)
      show ?thesis
      proof (cases ok)
        case True
        with c lt ix "1.prems"(2) have "k' = k" "s' = s1"
          by (simp_all add: load_loop.simps [of env k s] sa_def cf_def)
        with ch1 m1 i1 a1 show ?thesis
          by simp
      next
        case False
        have c': "(False, s1) = create_pipeline env (media_files s ! ?i) (emit (Attempt ?i) s)"
          using c False by (simp add: cf_def sa_def)
        have r2: "ready (advance_index s1)"
          using ch1 by (simp add: ready_def advance_index_def m1 i1 a1)
        have rec: "load_loop env (k + 1) (advance_index s1) = Inr (k', s')"
          using c lt ix False "1.prems"(2)
          by (simp add: load_loop.simps [of env k s] sa_def cf_def)
        from "1.IH" [OF lt ix refl c' refl r2 rec] show ?thesis
          by (simp add: advance_index_def m1)
      qed
    qed
  qed
qed

lemma tracked_load_current_media:
  assumes "ready s" "load_current_media env s = Inr s'"
  shows "chain (length (media_files s')) (attempted (history s')) \<and>
         (quit (gst s') \<or>
          attempted (history s') \<noteq> [] \<and> current_index s' = last (attempted (history s'))) \<and>
         idle_init (gst s') = idle_init (gst s)"
proof -
  obtain k' s1 where l: "load_loop env 0 s = Inr (k', s1)"
    using assms(2) by (auto simp: load_current_media_def split: sum.splits)
  note ch = load_loop_chain [OF assms(1) l]
  note id = idle_load_loop [OF l]
  have s': "s' = (if k' \<ge> length (media_files s1) then destroy s1 else s1)"
    using assms(2) l by (simp add: load_current_media_def)
  show ?thesis
  proof (cases "k' \<ge> length (media_files s1)")
    case True
    with s' ch id show ?thesis
      by (simp add: destroy_def)
  next
    case False
    with s' ch id show ?thesis
      by simp
  qed
qed

lemma tracked_change_media:
  assumes "tracked s" "\<not> quit (gst s)" "\<not> idle_init (gst s)"
  shows "tracked (swallow s (change_media env s))"
proof (cases "change_media env s")
  case (Inl e)
  with assms(1) show ?thesis
    by (simp add: swallow_def)
next
  case (Inr s')
  then have ne: "length (media_files s) \<noteq> 0"
    and l: "load_current_media env (advance_index s) = Inr s'"
    by (auto simp: change_media_def split: if_splits)
  have "ready (advance_index s)"
    using assms(1,2) by (auto simp: tracked_def ready_def advance_index_def)
  from tracked_load_current_media [OF this l] assms(3) Inr show ?thesis
    by (auto simp: tracked_def swallow_def advance_index_def)
qed

lemma tracked_on_destroy: "tracked s \<Longrightarrow> tracked (on_destroy s)"
  by (simp add: tracked_def)

lemma tracked_on_message:
  assumes "tracked s"
  shows "tracked (swallow s (on_message msg s))"
    and "quit (gst (swallow s (on_message msg s))) = quit (gst s)"
    and "idle_init (gst (swallow s (on_message msg s))) = idle_init (gst s)"
  using assms
  by (cases msg; auto simp: on_message_def swallow_def tracked_def split: option.splits)+

lemma tracked_deliver:
  assumes "tracked s" "\<not> quit (gst s)" "\<not> idle_init (gst s)"
  shows "tracked (deliver env msg s)"
proof -
  define s1 where "s1 = swallow s (on_message msg s)"
  note m = tracked_on_message [OF assms(1), of msg, folded s1_def]
  have q: "\<not> quit (gst s1)" and i: "\<not> idle_init (gst s1)"
    using m(2,3) assms(2,3) by simp_all
  have "tracked (swallow s1 (on_error env s1))"
    unfolding on_error_def using m(1) q i by (rule tracked_change_media)
  moreover have "tracked (swallow s1 (on_eos env s1))"
    using tracked_change_media [OF m(1) q i, of env] m(1)
    by (simp add: on_eos_def swallow_def)
  ultimately show ?thesis
    using m(1) unfolding deliver_def s1_def [symmetric] Let_def
    by (cases msg) auto
qed

lemma tracked_step:
  assumes w: "well s" and t: "tracked s"
  shows "tracked (step env e s)"
proof (cases "quit (gst s)")
  case True
  with t show ?thesis
    by (simp add: step_def)
next
  case nq: False
  have i: "consistent s"
    using w by (simp add: well_def)
  show ?thesis
  proof (cases e)
    case IdleFired
    show ?thesis
    proof (cases "idle_init (gst s)")
      case False
      with nq t IdleFired show ?thesis
        by (simp add: step_def)
    next
      case True
      with t nq have r: "ready s"
        by (auto simp: tracked_def ready_def)
      obtain s' where l: "load_current_media env s = Inr s'"
        using well_load_current_media [OF w, of env] by blast
      from tracked_load_current_media [OF r l]
      have "tracked (emit IdleDone s')"
        by (auto simp: tracked_def)
      with nq True l IdleFired show ?thesis
        by (simp add: step_def initialize_media_def swallow_def)
    qed
  next
    case (TimerFired x)
    show ?thesis
    proof (cases "x \<in> fst ` set (timers (gst s))")
      case False
      with nq t TimerFired show ?thesis
        by (simp add: step_def)
    next
      case True
      then have "pipeline s \<noteq> None"
        using i by (auto simp: consistent_def opt_list_def split: option.splits)
      with t nq have "\<not> idle_init (gst s)"
        by (auto simp: tracked_def)
      with t nq have "tracked (swallow s (change_media env s))"
        by (intro tracked_change_media)
      then have "tracked (emit (SourceExpired x) (swallow s (change_media env s)))"
        by (auto simp: tracked_def)
      with nq True TimerFired show ?thesis
        by (simp add: step_def)
    qed
  next
    case (BusMessage b msg)
    show ?thesis
    proof (cases "b \<in> set (watches (gst s))")
      case False
      with nq t BusMessage show ?thesis
        by (simp add: step_def)
    next
      case True
      then have "pipeline s \<noteq> None"
        using i by (auto simp: consistent_def opt_list_def split: option.splits)
      with t nq have "\<not> idle_init (gst s)"
        by (auto simp: tracked_def)
      with t nq have "tracked (deliver env msg s)"
        by (intro tracked_deliver)
      with nq True BusMessage show ?thesis
        by (simp add: step_def)
    qed
  next
    case (KeyPress escape)
    with nq t show ?thesis
      by (simp add: step_def on_key_press_def destroy_def tracked_on_destroy)
  next
    case WindowClosed
    with nq t show ?thesis
      by (simp add: step_def destroy_def tracked_on_destroy)
  qed
qed

lemma tracked_run:
  assumes "well s" "tracked s"
  shows "tracked (run env es s)"
  using assms
proof (induction es arbitrary: s)
  case Nil
  then show ?case by simp
next
  case (Cons e es)
  have "well (step env e s)"
    using keeps_step [OF Cons.prems(1), of env e] by (simp add: keeps_def)
  moreover have "tracked (step env e s)"
    using Cons.prems by (rule tracked_step)
  ultimately show ?case
    by (simp add: Cons.IH)
qed

lemma tracked_init: "tracked (init found interval shuffle rnd)"
  by (cases found) (simp_all add: init_def destroy_def tracked_def Let_def on_destroy_def)

lemma load_loop_first_attempt:
  assumes "k < length (media_files s)" "current_index s < length (media_files s)"
    and l: "load_loop env k s = Inr (k', s')"
  shows "\<exists>rest. attempted (history s') = attempted (history s) @ current_index s # rest"
proof -
  let ?P = "\<lambda>u. \<exists>rest. attempted (history u) = attempted (history s) @ current_index s # rest"
  define sa where "sa = emit (Attempt (current_index s)) s"
  define cf where "cf = media_files s ! current_index s"
  obtain ok s1 where c: "create_pipeline env cf sa = (ok, s1)"
    by (cases "create_pipeline env cf sa")
  have p1: "?P s1"
    using attempted_create_pipeline [of env cf sa] c by (simp add: sa_def)
  show ?thesis
  proof (cases ok)
    case True
    with c assms have "s' = s1"
      by (simp add: load_loop.simps [of env k s] sa_def cf_def)
    with p1 show ?thesis by simp
  next
    case False
    have rec: "load_loop env (k + 1) (advance_index s1) = Inr (k', s')"
      using c assms False by (simp add: load_loop.simps [of env k s] sa_def cf_def)
    have p2: "?P (advance_index s1)"
      using p1 by (simp add: advance_index_def)
    show ?thesis
      using _ _ _ p2 rec
    proof (rule load_loop_preserves [where P = ?P])
      show "?P (emit (Attempt (current_index u)) u)" if "?P u" for u
        using that by auto
      show "?P (snd (create_pipeline env p u))" if "?P u" for u p
        using that by (simp add: attempted_create_pipeline)
      show "?P (advance_index u)" if "?P u" for u
        using that by (simp add: advance_index_def)
    qed
  qed
qed

lemma change_media_first_attempt:
  assumes "media_files s \<noteq> []"
  shows "\<exists>s' rest. change_media env s = Inr s' \<and>
           attempted (history s') =
             attempted (history s) @ ((current_index s + 1) mod length (media_files s)) # rest"
proof -
  define s1 where "s1 = advance_index s"
  have n: "0 < length (media_files s1)" and ix: "current_index s1 < length (media_files s1)"
    using assms by (simp_all add: s1_def advance_index_def)
  obtain k' s2 where l: "load_loop env 0 s1 = Inr (k', s2)"
    using load_loop_no_error [of s1 env 0] ix by blast
  obtain rest where r: "attempted (history s2) = attempted (history s1) @ current_index s1 # rest"
    using load_loop_first_attempt [OF n ix l] by blast
  have "change_media env s = Inr (if k' \<ge> length (media_files s2) then destroy s2 else s2)"
    using assms l by (simp add: change_media_def load_current_media_def s1_def)
  with r show ?thesis
    by (auto simp: s1_def advance_index_def destroy_def)
qed

text \<open>
  Claim C4. In any run, each file passed to \<^verbatim>\<open>create_pipeline\<close> has the index that
  follows, modulo the length of the list, the index of the file passed just before; with
  more than one file the two differ, so no file is tried twice in a row, whether the
  advance came from the retry loop, the timer, the end of a video or the error handler.
  \<^verbatim>\<open>change_media\<close> on a list that is not empty returns, and the first file it tries is
  the one after the current index; \<^verbatim>\<open>on_error\<close> is \<^verbatim>\<open>change_media\<close>.
\<close>

theorem advance_before_load:
  "(\<forall>k. Suc k < length (attempted (history (run env es (init found interval shuffle rnd)))) \<longrightarrow>
      attempted (history (run env es (init found interval shuffle rnd))) ! Suc k =
        (attempted (history (run env es (init found interval shuffle rnd))) ! k + 1)
          mod length (media_files (run env es (init found interval shuffle rnd))) \<and>
      (1 < length (media_files (run env es (init found interval shuffle rnd))) \<longrightarrow>
         attempted (history (run env es (init found interval shuffle rnd))) ! Suc k \<noteq>
         attempted (history (run env es (init found interval shuffle rnd))) ! k)) \<and>
   (media_files s \<noteq> [] \<longrightarrow>
      (\<exists>s' rest. change_media env s = Inr s' \<and>
         attempted (history s') =
           attempted (history s) @ ((current_index s + 1) mod length (media_files s)) # rest)) \<and>
   on_error env s = change_media env s"
proof (intro conjI allI impI)
  let ?r = "run env es (init found interval shuffle rnd)"
  have "tracked ?r"
    using well_init tracked_init by (rule tracked_run)
  then have ch: "chain (length (media_files ?r)) (attempted (history ?r))"
    by (simp add: tracked_def)
  fix k
  assume k: "Suc k < length (attempted (history ?r))"
  show eq: "attempted (history ?r) ! Suc k =
        (attempted (history ?r) ! k + 1) mod length (media_files ?r)"
    using ch k by (rule chain_nth)
  show "attempted (history ?r) ! Suc k \<noteq> attempted (history ?r) ! k"
    if n: "1 < length (media_files ?r)"
  proof
    assume "attempted (history ?r) ! Suc k = attempted (history ?r) ! k"
    with eq have e: "(attempted (history ?r) ! k + 1) mod length (media_files ?r)
        = attempted (history ?r) ! k"
      by simp
    then have lt: "attempted (history ?r) ! k < length (media_files ?r)"
      using n by (metis less_trans mod_less_divisor zero_less_one)
    show False
    proof (cases "attempted (history ?r) ! k + 1 < length (media_files ?r)")
      case True
      with e show False by simp
    next
      case False
      with lt have "attempted (history ?r) ! k + 1 = length (media_files ?r)"
        by simp
      with e n show False by simp
    qed
  qed
next
  assume "media_files s \<noteq> []"
  then show "\<exists>s' rest. change_media env s = Inr s' \<and>
         attempted (history s') =
           attempted (history s) @ ((current_index s + 1) mod length (media_files s)) # rest"
    by (rule change_media_first_attempt)
next
  show "on_error env s = change_media env s"
    by (simp add: on_error_def)
qed

theorem advance_before_load_witness:
  "attempted (history three_loads) = [0, 1, 2, 0] \<and>
   Suc 0 < length (attempted (history three_loads)) \<and>
   1 < length (media_files three_loads) \<and>
   attempted (history three_loads) ! Suc 0 =
     (attempted (history three_loads) ! 0 + 1) mod length (media_files three_loads) \<and>
   attempted (history three_loads) ! Suc 0 \<noteq> attempted (history three_loads) ! 0 \<and>
   media_files three_loads \<noteq> [] \<and>
   (\<exists>s' rest. change_media skipping_env three_loads = Inr s' \<and>
      attempted (history s') =
        attempted (history three_loads) @
        ((current_index three_loads + 1) mod length (media_files three_loads)) # rest)"
proof -
  have a: "attempted (history three_loads) = [0, 1, 2, 0]"
    by code_simp
  have m: "media_files three_loads = [''a.jpg'', ''b.mp4'', ''c.png'']"
    by code_simp
  note t = advance_before_load [where env = skipping_env
      and es = "[IdleFired, TimerFired 2, BusMessage 4 MsgError]"
      and found = "[''c.png'', ''b.mp4'', ''a.jpg'']" and interval = 3 and shuffle = False
      and rnd = "\<lambda>i. 0" and s = three_loads, folded three_loads_def]
  have k: "Suc 0 < length (attempted (history three_loads))"
    by (simp add: a)
  have n: "1 < length (media_files three_loads)"
    by (simp add: m)
  have ne: "media_files three_loads \<noteq> []"
    by (simp add: m)
  from t k n have "attempted (history three_loads) ! Suc 0 =
     (attempted (history three_loads) ! 0 + 1) mod length (media_files three_loads) \<and>
     attempted (history three_loads) ! Suc 0 \<noteq> attempted (history three_loads) ! 0"
    by blast
  moreover from t ne have "\<exists>s' rest. change_media skipping_env three_loads = Inr s' \<and>
      attempted (history s') =
        attempted (history three_loads) @
        ((current_index three_loads + 1) mod length (media_files three_loads)) # rest"
    by blast
  ultimately show ?thesis
    using a k n ne by blast
qed

end
